theory Spec2Isabelle
  imports Complex_Main "HOL-Library.Sublist" "HOL-Library.Multiset"
begin

section \<open>The data model of \<^verbatim>\<open>allennlp/commands/diff.py\<close>\<close>

text \<open>
  A parameter of a checkpoint is a key together with the shape of its tensor
  (\<^verbatim>\<open>(k, tuple(v.shape))\<close>). A state dictionary is a Python \<^verbatim>\<open>dict\<close>: here an
  association list in insertion order, whose keys are distinct. A tensor is known to
  this module by its \<^verbatim>\<open>shape\<close> only. The distance
  \<^verbatim>\<open>torch.nn.functional.mse_loss(a, b).sqrt().item()\<close> belongs to the tensor library
  and not to this module: it is a parameter \<open>distance\<close> of the functions below. The
  call can raise (the library refuses tensors it cannot subtract or average), which
  is the value \<open>None\<close>, and it returns a Python float, which can be a number, an
  infinity or NaN.
\<close>

type_synonym key = string
type_synonym dims = "int list"
type_synonym param = "key \<times> dims"

record 'e tensor =
  shape :: dims
  elems :: "'e list"

type_synonym 'e state_dict = "(key \<times> 'e tensor) list"

datatype pyfloat = Finite real | PosInf | NegInf | NaN

datatype step =
    Keep key dims
  | Insert key dims
  | Remove key dims
  | Modify key dims pyfloat

datatype frontier = Frontier (fx: int) (fhistory: "step list")

datatype error = KeyError | IndexError | AssertionError | RuntimeError

datatype outcome = Return "step list" | Continue "int \<rightharpoonup> frontier"

section \<open>Python's primitives\<close>

text \<open>\<^verbatim>\<open>xs[i]\<close>: a negative index counts from the end, an index out of range raises.\<close>

definition py_index :: "'a list \<Rightarrow> int \<Rightarrow> error + 'a" where
  "py_index xs i =
     (let n = int (length xs) in
      if 0 \<le> i \<and> i < n then Inr (xs ! nat i)
      else if - n \<le> i \<and> i < 0 then Inr (xs ! nat (i + n))
      else Inl IndexError)"

text \<open>\<^verbatim>\<open>frontier[k]\<close>: a missing key raises.\<close>

definition lookup :: "(int \<rightharpoonup> frontier) \<Rightarrow> int \<Rightarrow> error + frontier" where
  "lookup fr k = (case fr k of None \<Rightarrow> Inl KeyError | Some f \<Rightarrow> Inr f)"

text \<open>\<^verbatim>\<open>range(start, stop, step)\<close> for a positive step.\<close>

function py_range :: "int \<Rightarrow> int \<Rightarrow> int \<Rightarrow> int list" where
  "py_range start stop stp =
     (if 0 < stp \<and> start < stop then start # py_range (start + stp) stop stp else [])"
  by pat_completeness auto
termination
  by (relation "measure (\<lambda>(start, stop, stp). nat (stop - start))") auto

declare py_range.simps [simp del]

section \<open>The classifier \<^verbatim>\<open>_finalize\<close>\<close>

text \<open>
  The loop over \<^verbatim>\<open>enumerate(out)\<close> rewrites position \<open>i\<close> only while it visits
  position \<open>i\<close>, so it is a recursion over the list. Each \<^verbatim>\<open>Keep\<close> looks its key up in
  both dictionaries (a missing key raises \<^verbatim>\<open>KeyError\<close>, first in \<^verbatim>\<open>state_dict_a\<close>),
  computes the distance (an exception of the library leaves the function) and is
  replaced by a \<^verbatim>\<open>Modify\<close> when \<^verbatim>\<open>dist != 0.0\<close>, which is true of every float but
  zero: of the infinities and of NaN too.
\<close>

fun finalize ::
  "('e tensor \<Rightarrow> 'e tensor \<Rightarrow> pyfloat option) \<Rightarrow> step list \<Rightarrow> 'e state_dict \<Rightarrow> 'e state_dict
     \<Rightarrow> error + step list" where
  "finalize distance [] state_dict_a state_dict_b = Inr []"
| "finalize distance (Keep k s # rest) state_dict_a state_dict_b =
     (case map_of state_dict_a k of
        None \<Rightarrow> Inl KeyError
      | Some a_tensor \<Rightarrow>
         (case map_of state_dict_b k of
            None \<Rightarrow> Inl KeyError
          | Some b_tensor \<Rightarrow>
             (case distance a_tensor b_tensor of
                None \<Rightarrow> Inl RuntimeError
              | Some dist_ab \<Rightarrow>
                 (case finalize distance rest state_dict_a state_dict_b of
                    Inl e \<Rightarrow> Inl e
                  | Inr out \<Rightarrow>
                     Inr ((if dist_ab \<noteq> Finite 0 then Modify k s dist_ab else Keep k s)
                          # out)))))"
| "finalize distance (other # rest) state_dict_a state_dict_b =
     (case finalize distance rest state_dict_a state_dict_b of
        Inl e \<Rightarrow> Inl e
      | Inr out \<Rightarrow> Inr (other # out))"

section \<open>The edit-script search of \<^verbatim>\<open>checkpoint_diff\<close>\<close>

definition one :: "int \<Rightarrow> int" where
  "one idx = idx - 1"

text \<open>
  \<^verbatim>\<open>go_down = k == -d or (k != d and frontier[k - 1].x < frontier[k + 1].x)\<close>,
  with the short-circuit evaluation of \<^verbatim>\<open>or\<close> and \<^verbatim>\<open>and\<close>.
\<close>

definition go_down :: "(int \<rightharpoonup> frontier) \<Rightarrow> int \<Rightarrow> int \<Rightarrow> error + bool" where
  "go_down fr d k =
     (if k = - d then Inr True
      else if k \<noteq> d then
        (case lookup fr (k - 1) of
           Inl e \<Rightarrow> Inl e
         | Inr f1 \<Rightarrow>
            (case lookup fr (k + 1) of
               Inl e \<Rightarrow> Inl e
             | Inr f2 \<Rightarrow> Inr (fx f1 < fx f2)))
      else Inr False)"

text \<open>The starting point of an iteration: \<^verbatim>\<open>x\<close> and the history it continues.\<close>

definition start_point ::
  "(int \<rightharpoonup> frontier) \<Rightarrow> int \<Rightarrow> bool \<Rightarrow> error + int \<times> step list" where
  "start_point fr k gd =
     (if gd then
        (case lookup fr (k + 1) of
           Inl e \<Rightarrow> Inl e
         | Inr f \<Rightarrow> Inr (fx f, fhistory f))
      else
        (case lookup fr (k - 1) of
           Inl e \<Rightarrow> Inl e
         | Inr f \<Rightarrow> Inr (fx f + 1, fhistory f)))"

text \<open>The step appended for the move off the starting point.\<close>

definition first_move ::
  "param list \<Rightarrow> param list \<Rightarrow> bool \<Rightarrow> int \<Rightarrow> int \<Rightarrow> step list \<Rightarrow> error + step list" where
  "first_move param_list_a param_list_b gd x y history =
     (if 1 \<le> y \<and> y \<le> int (length param_list_b) \<and> gd then
        (case py_index param_list_b (one y) of
           Inl e \<Rightarrow> Inl e
         | Inr (k, s) \<Rightarrow> Inr (history @ [Insert k s]))
      else if 1 \<le> x \<and> x \<le> int (length param_list_a) then
        (case py_index param_list_a (one x) of
           Inl e \<Rightarrow> Inl e
         | Inr (k, s) \<Rightarrow> Inr (history @ [Remove k s]))
      else Inr history)"

text \<open>The \<^verbatim>\<open>while\<close> loop that follows the diagonal over equal parameters.\<close>

function chew ::
  "param list \<Rightarrow> param list \<Rightarrow> int \<Rightarrow> int \<Rightarrow> step list \<Rightarrow> error + int \<times> int \<times> step list" where
  "chew param_list_a param_list_b x y history =
     (if x < int (length param_list_a) \<and> y < int (length param_list_b) then
        (case py_index param_list_a (one (x + 1)) of
           Inl e \<Rightarrow> Inl e
         | Inr pa \<Rightarrow>
            (case py_index param_list_b (one (y + 1)) of
               Inl e \<Rightarrow> Inl e
             | Inr pb \<Rightarrow>
                if pa = pb then
                  (case py_index param_list_a (one (x + 1)) of
                     Inl e \<Rightarrow> Inl e
                   | Inr (k, s) \<Rightarrow>
                      chew param_list_a param_list_b (x + 1) (y + 1) (history @ [Keep k s]))
                else Inr (x, y, history)))
      else Inr (x, y, history))"
  by pat_completeness auto
termination
  by (relation "measure (\<lambda>(A, B, x, y, h). nat (int (length A) - x))") auto

declare chew.simps [simp del]

text \<open>The body of the loop over the diagonals \<open>k\<close>.\<close>

definition diag_iter ::
  "param list \<Rightarrow> param list \<Rightarrow> (int \<rightharpoonup> frontier) \<Rightarrow> int \<Rightarrow> int \<Rightarrow> error + outcome" where
  "diag_iter param_list_a param_list_b fr d k =
     (case go_down fr d k of
        Inl e \<Rightarrow> Inl e
      | Inr gd \<Rightarrow>
         (case start_point fr k gd of
            Inl e \<Rightarrow> Inl e
          | Inr (x, history) \<Rightarrow>
             (case first_move param_list_a param_list_b gd x (x - k) history of
                Inl e \<Rightarrow> Inl e
              | Inr history1 \<Rightarrow>
                 (case chew param_list_a param_list_b x (x - k) history1 of
                    Inl e \<Rightarrow> Inl e
                  | Inr (x2, y2, history2) \<Rightarrow>
                     if x2 \<ge> int (length param_list_a) \<and> y2 \<ge> int (length param_list_b)
                     then Inr (Return history2)
                     else Inr (Continue (fr(k \<mapsto> Frontier x2 history2)))))))"

text \<open>\<^verbatim>\<open>for k in range(-d, d + 1, 2)\<close>, left by a \<^verbatim>\<open>return\<close> or an exception.\<close>

fun diag_loop ::
  "param list \<Rightarrow> param list \<Rightarrow> int \<Rightarrow> int list \<Rightarrow> (int \<rightharpoonup> frontier) \<Rightarrow> error + outcome" where
  "diag_loop param_list_a param_list_b d [] fr = Inr (Continue fr)"
| "diag_loop param_list_a param_list_b d (k # ks) fr =
     (case diag_iter param_list_a param_list_b fr d k of
        Inl e \<Rightarrow> Inl e
      | Inr (Return history) \<Rightarrow> Inr (Return history)
      | Inr (Continue fr') \<Rightarrow> diag_loop param_list_a param_list_b d ks fr')"

text \<open>
  \<^verbatim>\<open>for d in range(0, a_max + b_max + 1)\<close>; when the range is exhausted the
  \<^verbatim>\<open>assert False\<close> after the loop raises.
\<close>

fun dist_loop ::
  "param list \<Rightarrow> param list \<Rightarrow> int list \<Rightarrow> (int \<rightharpoonup> frontier) \<Rightarrow> error + step list" where
  "dist_loop param_list_a param_list_b [] fr = Inl AssertionError"
| "dist_loop param_list_a param_list_b (d # ds) fr =
     (case diag_loop param_list_a param_list_b d (py_range (- d) (d + 1) 2) fr of
        Inl e \<Rightarrow> Inl e
      | Inr (Return history) \<Rightarrow> Inr history
      | Inr (Continue fr') \<Rightarrow> dist_loop param_list_a param_list_b ds fr')"

definition param_list :: "'e state_dict \<Rightarrow> param list" where
  "param_list state_dict = map (\<lambda>(k, v). (k, shape v)) state_dict"

text \<open>\<^verbatim>\<open>frontier: Dict[int, _Frontier] = {1: _Frontier(0, [])}\<close>\<close>

definition initial_frontier :: "int \<rightharpoonup> frontier" where
  "initial_frontier = [1 \<mapsto> Frontier 0 []]"

text \<open>The search alone: the edit script before classification.\<close>

definition edit_script :: "param list \<Rightarrow> param list \<Rightarrow> error + step list" where
  "edit_script param_list_a param_list_b =
     dist_loop param_list_a param_list_b
       (py_range 0 (int (length param_list_a) + int (length param_list_b) + 1) 1)
       initial_frontier"

definition checkpoint_diff ::
  "('e tensor \<Rightarrow> 'e tensor \<Rightarrow> pyfloat option) \<Rightarrow> 'e state_dict \<Rightarrow> 'e state_dict
     \<Rightarrow> error + step list" where
  "checkpoint_diff distance state_dict_a state_dict_b =
     (case edit_script (param_list state_dict_a) (param_list state_dict_b) of
        Inl e \<Rightarrow> Inl e
      | Inr history \<Rightarrow> finalize distance history state_dict_a state_dict_b)"

section \<open>The edit graph\<close>

text \<open>
  \<open>reach A B d (x, y)\<close>: the point \<open>(x, y)\<close> is reached from the origin by a path with
  exactly \<open>d\<close> moves right or down; a diagonal move costs nothing and needs equal
  parameters \<open>A[x] = B[y]\<close> inside the grid. Right and down moves are not bounded by
  the grid, as in the search, which lets \<open>x\<close> and \<open>y\<close> run past the lengths.
\<close>

inductive reach :: "'a list \<Rightarrow> 'a list \<Rightarrow> int \<Rightarrow> int \<times> int \<Rightarrow> bool" for A B where
  origin: "reach A B 0 (0, 0)"
| diagonal: "reach A B d (x, y) \<Longrightarrow> x < int (length A) \<Longrightarrow> y < int (length B) \<Longrightarrow>
     A ! nat x = B ! nat y \<Longrightarrow> reach A B d (x + 1, y + 1)"
| right: "reach A B d (x, y) \<Longrightarrow> reach A B (d + 1) (x + 1, y)"
| down: "reach A B d (x, y) \<Longrightarrow> reach A B (d + 1) (x, y + 1)"

section \<open>Reading an edit script\<close>

text \<open>
  The (key, shape) pairs a step consumes from A (Keep, Modify, Remove), produces in B
  (Keep, Modify, Insert), and keeps (Keep, Modify); \<open>edits\<close> counts the Insert and
  Remove steps; \<open>engine_step\<close> holds of the steps the search itself appends.
\<close>

fun source_side :: "step \<Rightarrow> param list" where
  "source_side (Keep k s) = [(k, s)]"
| "source_side (Insert k s) = []"
| "source_side (Remove k s) = [(k, s)]"
| "source_side (Modify k s r) = [(k, s)]"

fun target_side :: "step \<Rightarrow> param list" where
  "target_side (Keep k s) = [(k, s)]"
| "target_side (Insert k s) = [(k, s)]"
| "target_side (Remove k s) = []"
| "target_side (Modify k s r) = [(k, s)]"

fun kept_side :: "step \<Rightarrow> param list" where
  "kept_side (Keep k s) = [(k, s)]"
| "kept_side (Insert k s) = []"
| "kept_side (Remove k s) = []"
| "kept_side (Modify k s r) = [(k, s)]"

fun is_edit :: "step \<Rightarrow> bool" where
  "is_edit (Keep k s) = False"
| "is_edit (Insert k s) = True"
| "is_edit (Remove k s) = True"
| "is_edit (Modify k s r) = False"

fun engine_step :: "step \<Rightarrow> bool" where
  "engine_step (Keep k s) = True"
| "engine_step (Insert k s) = True"
| "engine_step (Remove k s) = True"
| "engine_step (Modify k s r) = False"

definition source_of :: "step list \<Rightarrow> param list" where
  "source_of h = concat (map source_side h)"

definition target_of :: "step list \<Rightarrow> param list" where
  "target_of h = concat (map target_side h)"

definition kept_of :: "step list \<Rightarrow> param list" where
  "kept_of h = concat (map kept_side h)"

definition edits :: "step list \<Rightarrow> nat" where
  "edits h = length (filter is_edit h)"

section \<open>Invariants of the search\<close>

text \<open>
  A history at a point \<open>(x, y)\<close> inside the grid is a script from the first \<open>x\<close>
  parameters of A to the first \<open>y\<close> parameters of B with \<open>d\<close> edits. Nothing is
  asked of a history at a point outside the grid.
\<close>

definition script_for :: "param list \<Rightarrow> param list \<Rightarrow> int \<Rightarrow> int \<Rightarrow> int \<Rightarrow> step list \<Rightarrow> bool" where
  "script_for A B d x y h \<longleftrightarrow>
     (x \<le> int (length A) \<and> y \<le> int (length B) \<longrightarrow>
        source_of h = take (nat x) A \<and> target_of h = take (nat y) B \<and> int (edits h) = d \<and>
        list_all engine_step h)"

definition node_ok :: "param list \<Rightarrow> param list \<Rightarrow> int \<Rightarrow> int \<Rightarrow> int \<Rightarrow> step list \<Rightarrow> bool" where
  "node_ok A B d x y h \<longleftrightarrow>
     0 \<le> x \<and> 0 \<le> y \<and> reach A B d (x, y) \<and> script_for A B d x y h"

text \<open>
  An entry of the frontier written at level \<open>d\<close> for diagonal \<open>k\<close>: its point is
  reached with \<open>d\<close> moves, no point of the diagonal reached with \<open>d\<close> moves is further
  right, and it is not at or beyond the corner (the search would have returned).
\<close>

definition entry_ok :: "param list \<Rightarrow> param list \<Rightarrow> int \<Rightarrow> int \<Rightarrow> frontier \<Rightarrow> bool" where
  "entry_ok A B d k f \<longleftrightarrow>
     node_ok A B d (fx f) (fx f - k) (fhistory f) \<and>
     (\<forall>x'. reach A B d (x', x' - k) \<longrightarrow> x' \<le> fx f) \<and>
     \<not> (int (length A) \<le> fx f \<and> int (length B) \<le> fx f - k)"

definition round_ok :: "param list \<Rightarrow> param list \<Rightarrow> int \<Rightarrow> (int \<rightharpoonup> frontier) \<Rightarrow> bool" where
  "round_ok A B d fr \<longleftrightarrow>
     (\<forall>k. \<bar>k\<bar> \<le> d \<and> even (d - k) \<longrightarrow> (\<exists>f. fr k = Some f \<and> entry_ok A B d k f))"

text \<open>No path with at most \<open>d\<close> moves reaches the corner.\<close>

definition no_script :: "param list \<Rightarrow> param list \<Rightarrow> int \<Rightarrow> bool" where
  "no_script A B d \<longleftrightarrow> (\<forall>d'. d' \<le> d \<longrightarrow> \<not> reach A B d' (int (length A), int (length B)))"

text \<open>What holds of the history the search returns at level \<open>d\<close>.\<close>

definition final_ok :: "param list \<Rightarrow> param list \<Rightarrow> int \<Rightarrow> step list \<Rightarrow> bool" where
  "final_ok A B d h \<longleftrightarrow>
     source_of h = A \<and> target_of h = B \<and> int (edits h) = d \<and> list_all engine_step h \<and>
     reach A B d (int (length A), int (length B)) \<and> no_script A B (d - 1)"

section \<open>Reference notions for the claims\<close>

text \<open>The length of a longest common subsequence, by the usual recursion.\<close>

fun lcs_length :: "'a list \<Rightarrow> 'a list \<Rightarrow> nat" where
  "lcs_length [] ys = 0"
| "lcs_length (x # xs) [] = 0"
| "lcs_length (x # xs) (y # ys) =
     (if x = y then Suc (lcs_length xs ys)
      else max (lcs_length xs (y # ys)) (lcs_length (x # xs) ys))"

text \<open>
  What \<^verbatim>\<open>_finalize\<close> makes of one step when both lookups and the distance succeed;
  \<open>keep_resolved\<close>: both lookups of a Keep succeed; \<open>keep_computed\<close>: its distance is
  computed as well.
\<close>

fun classified ::
  "('e tensor \<Rightarrow> 'e tensor \<Rightarrow> pyfloat option) \<Rightarrow> 'e state_dict \<Rightarrow> 'e state_dict
     \<Rightarrow> step \<Rightarrow> step" where
  "classified distance sa sb (Keep k s) =
     (case (map_of sa k, map_of sb k) of
        (Some ta, Some tb) \<Rightarrow>
          (case distance ta tb of
             Some r \<Rightarrow> if r \<noteq> Finite 0 then Modify k s r else Keep k s
           | None \<Rightarrow> Keep k s)
      | _ \<Rightarrow> Keep k s)"
| "classified distance sa sb other = other"

fun keep_resolved :: "'e state_dict \<Rightarrow> 'e state_dict \<Rightarrow> step \<Rightarrow> bool" where
  "keep_resolved sa sb (Keep k s) = (map_of sa k \<noteq> None \<and> map_of sb k \<noteq> None)"
| "keep_resolved sa sb other = True"

fun keep_computed ::
  "('e tensor \<Rightarrow> 'e tensor \<Rightarrow> pyfloat option) \<Rightarrow> 'e state_dict \<Rightarrow> 'e state_dict
     \<Rightarrow> step \<Rightarrow> bool" where
  "keep_computed distance sa sb (Keep k s) =
     (case (map_of sa k, map_of sb k) of
        (Some ta, Some tb) \<Rightarrow> distance ta tb \<noteq> None
      | _ \<Rightarrow> False)"
| "keep_computed distance sa sb other = True"

section \<open>The distance of the tensor library\<close>

text \<open>
  \<^verbatim>\<open>mse_loss(a, b).sqrt().item()\<close> for tensors of floats: the square root of the mean
  of the squared differences of corresponding elements. The special values follow the
  floating-point rules: NaN is contagious, the difference of equal infinities is NaN,
  the mean of no elements is \<open>0 / 0\<close>, that is NaN. Arithmetic on finite values is
  exact here: rounding, overflow and underflow of the machine floats are not
  modelled. Tensors of different shapes are broadcast by the library when it can and
  refused otherwise: what it does with them is left to the parameter \<open>broadcast\<close>.
  \<^verbatim>\<open>checkpoint_diff\<close> compares tensors of equal shape only.
\<close>

fun fsub :: "pyfloat \<Rightarrow> pyfloat \<Rightarrow> pyfloat" where
  "fsub (Finite a) (Finite b) = Finite (a - b)"
| "fsub NaN y = NaN"
| "fsub x NaN = NaN"
| "fsub PosInf PosInf = NaN"
| "fsub NegInf NegInf = NaN"
| "fsub PosInf y = PosInf"
| "fsub NegInf y = NegInf"
| "fsub x PosInf = NegInf"
| "fsub x NegInf = PosInf"

fun fsquare :: "pyfloat \<Rightarrow> pyfloat" where
  "fsquare (Finite a) = Finite (a * a)"
| "fsquare PosInf = PosInf"
| "fsquare NegInf = PosInf"
| "fsquare NaN = NaN"

fun fadd :: "pyfloat \<Rightarrow> pyfloat \<Rightarrow> pyfloat" where
  "fadd (Finite a) (Finite b) = Finite (a + b)"
| "fadd NaN y = NaN"
| "fadd x NaN = NaN"
| "fadd PosInf NegInf = NaN"
| "fadd NegInf PosInf = NaN"
| "fadd PosInf y = PosInf"
| "fadd NegInf y = NegInf"
| "fadd x PosInf = PosInf"
| "fadd x NegInf = NegInf"

fun fmean :: "pyfloat list \<Rightarrow> pyfloat" where
  "fmean [] = NaN"
| "fmean xs =
     (case foldl fadd (Finite 0) xs of
        Finite acc \<Rightarrow> Finite (acc / real (length xs))
      | other \<Rightarrow> other)"

fun fsqrt :: "pyfloat \<Rightarrow> pyfloat" where
  "fsqrt (Finite a) = (if a < 0 then NaN else Finite (sqrt a))"
| "fsqrt PosInf = PosInf"
| "fsqrt NegInf = NaN"
| "fsqrt NaN = NaN"

definition torch_rms ::
  "(pyfloat tensor \<Rightarrow> pyfloat tensor \<Rightarrow> pyfloat option) \<Rightarrow> pyfloat tensor \<Rightarrow> pyfloat tensor
     \<Rightarrow> pyfloat option" where
  "torch_rms broadcast a b =
     (if shape a = shape b
      then Some (fsqrt (fmean (map2 (\<lambda>x y. fsquare (fsub x y)) (elems a) (elems b))))
      else broadcast a b)"

definition refused :: "pyfloat tensor \<Rightarrow> pyfloat tensor \<Rightarrow> pyfloat option" where
  "refused a b = None"

fun is_finite :: "pyfloat \<Rightarrow> bool" where
  "is_finite (Finite a) = True"
| "is_finite other = False"

text \<open>Sample checkpoints and a sample distance, for evaluating the theorems.\<close>

definition sample_distance :: "int tensor \<Rightarrow> int tensor \<Rightarrow> pyfloat option" where
  "sample_distance a b = Some (if elems a = elems b then Finite 0 else Finite (1 / 2))"

definition ckpt_old :: "int state_dict" where
  "ckpt_old =
     [(''w1'', \<lparr>shape = [4], elems = [1, 2, 3, 4]\<rparr>),
      (''w2'', \<lparr>shape = [4], elems = [0, 0, 0, 0]\<rparr>),
      (''w3'', \<lparr>shape = [2, 2], elems = [5, 6, 7, 8]\<rparr>)]"

definition ckpt_new :: "int state_dict" where
  "ckpt_new =
     [(''w2'', \<lparr>shape = [4], elems = [0, 0, 1, 1]\<rparr>),
      (''w3'', \<lparr>shape = [4], elems = [5, 6, 7, 8]\<rparr>),
      (''w4'', \<lparr>shape = [1], elems = [9]\<rparr>)]"

definition expected_diff :: "step list" where
  "expected_diff =
     [Remove ''w1'' [4], Modify ''w2'' [4] (Finite (1 / 2)), Remove ''w3'' [2, 2],
      Insert ''w3'' [4], Insert ''w4'' [1]]"

text \<open>The kind and the key of a step.\<close>

fun is_remove :: "step \<Rightarrow> bool" where
  "is_remove (Remove k s) = True"
| "is_remove other = False"

fun is_insert :: "step \<Rightarrow> bool" where
  "is_insert (Insert k s) = True"
| "is_insert other = False"

fun is_keep :: "step \<Rightarrow> bool" where
  "is_keep (Keep k s) = True"
| "is_keep other = False"

fun is_modify :: "step \<Rightarrow> bool" where
  "is_modify (Modify k s r) = True"
| "is_modify other = False"

fun step_key :: "step \<Rightarrow> key" where
  "step_key (Keep k s) = k"
| "step_key (Insert k s) = k"
| "step_key (Remove k s) = k"
| "step_key (Modify k s r) = k"

text \<open>Dictionaries that hold one empty tensor, and one tensor with a NaN element.\<close>

definition ckpt_empty :: "pyfloat state_dict" where
  "ckpt_empty = [(''w'', \<lparr>shape = [0], elems = []\<rparr>)]"

definition ckpt_nan :: "pyfloat state_dict" where
  "ckpt_nan = [(''w'', \<lparr>shape = [1], elems = [NaN]\<rparr>)]"

definition ckpt_other :: "int state_dict" where
  "ckpt_other =
     [(''v1'', \<lparr>shape = [4], elems = [1, 2, 3, 4]\<rparr>),
      (''v2'', \<lparr>shape = [1], elems = [7]\<rparr>)]"

text \<open>
  The tie-break as the specification words it: down on the leftmost diagonal, otherwise
  down when not on the topmost diagonal and the frontier is further right on diagonal
  \<open>k - 1\<close> than on diagonal \<open>k + 1\<close>. To be compared with \<open>go_down\<close>.
\<close>

definition spec_go_down :: "(int \<rightharpoonup> frontier) \<Rightarrow> int \<Rightarrow> int \<Rightarrow> bool" where
  "spec_go_down fr d k =
     (k = - d \<or> (k \<noteq> d \<and> fx (the (fr (k + 1))) < fx (the (fr (k - 1)))))"

text \<open>A run of the search on A = [a], B = [b, c]: the frontier after the levels 0 and 1,
  and after the first diagonal of level 2.\<close>

definition params_a :: "param list" where
  "params_a = [(''a'', [4])]"

definition params_bc :: "param list" where
  "params_bc = [(''b'', [4]), (''c'', [4])]"

definition frontier_1 :: "int \<rightharpoonup> frontier" where
  "frontier_1 = initial_frontier
     (0 \<mapsto> Frontier 0 [],
      - 1 \<mapsto> Frontier 0 [Insert ''b'' [4]],
      1 \<mapsto> Frontier 1 [Remove ''a'' [4]])"

definition frontier_2 :: "int \<rightharpoonup> frontier" where
  "frontier_2 = frontier_1(- 2 \<mapsto> Frontier 0 [Insert ''b'' [4], Insert ''c'' [4]])"

section \<open>The distance and the rewriting of a Keep\<close>

fun not_negative :: "pyfloat \<Rightarrow> bool" where
  "not_negative (Finite a) = (0 \<le> a)"
| "not_negative PosInf = True"
| "not_negative NegInf = False"
| "not_negative NaN = True"

definition ckpt_half :: "pyfloat state_dict" where
  "ckpt_half = [(''w2'', \<lparr>shape = [2], elems = [Finite 1, Finite 2]\<rparr>)]"

definition ckpt_half_moved :: "pyfloat state_dict" where
  "ckpt_half_moved = [(''w2'', \<lparr>shape = [2], elems = [Finite (3 / 2), Finite (3 / 2)]\<rparr>)]"

section \<open>Paths in the edit graph\<close>

lemma reach_nonneg: "reach A B d p \<Longrightarrow> 0 \<le> d \<and> 0 \<le> fst p \<and> 0 \<le> snd p"
  by (induction rule: reach.induct) auto

lemma reach_band: "reach A B d p \<Longrightarrow> \<bar>fst p - snd p\<bar> \<le> d \<and> even (d - (fst p - snd p))"
  by (induction rule: reach.induct) auto

lemma reach_rights: "reach A B (int n) (int n, 0)"
proof (induction n)
  case 0
  show ?case by (simp add: reach.origin)
next
  case (Suc n)
  from reach.right [OF Suc] show ?case by (simp add: add.commute)
qed

lemma reach_downs: "reach A B d (x, y) \<Longrightarrow> reach A B (d + int n) (x, y + int n)"
proof (induction n)
  case 0
  then show ?case by simp
next
  case (Suc n)
  from reach.down [OF Suc.IH [OF Suc.prems]] show ?case by (simp add: algebra_simps)
qed

lemma reach_corner_direct:
  "reach A B (int (length A) + int (length B)) (int (length A), int (length B))"
  using reach_downs [OF reach_rights, of A B "length A" "length B"] by simp

text \<open>A path that has left the grid has cost at least as much as one that stops at
  the border: outside the grid there are no diagonals.\<close>

lemma reach_clamp:
  "reach A B d p \<Longrightarrow>
   reach A B (d - (fst p - min (fst p) (int (length A))) - (snd p - min (snd p) (int (length B))))
     (min (fst p) (int (length A)), min (snd p) (int (length B)))"
proof (induction rule: reach.induct)
  case origin
  show ?case by (simp add: reach.origin)
next
  case (diagonal d x y)
  then have "reach A B d (x, y)" by simp
  from reach.diagonal [OF this diagonal.hyps(2,3,4)] diagonal.hyps(2,3)
  show ?case by simp
next
  case (right d x y)
  show ?case
  proof (cases "x < int (length A)")
    case True
    then have m: "min x (int (length A)) = x" "min (x + 1) (int (length A)) = x + 1" by simp_all
    from right.IH m have "reach A B (d - (y - min y (int (length B)))) (x, min y (int (length B)))"
      by simp
    from reach.right [OF this] m show ?thesis
      by (simp add: algebra_simps)
  next
    case False
    then have m: "min x (int (length A)) = int (length A)"
      "min (x + 1) (int (length A)) = int (length A)" by simp_all
    from right.IH show ?thesis unfolding fst_conv snd_conv m by (simp add: algebra_simps)
  qed
next
  case (down d x y)
  show ?case
  proof (cases "y < int (length B)")
    case True
    then have m: "min y (int (length B)) = y" "min (y + 1) (int (length B)) = y + 1" by simp_all
    from down.IH m have "reach A B (d - (x - min x (int (length A)))) (min x (int (length A)), y)"
      by simp
    from reach.down [OF this] m show ?thesis
      by (simp add: algebra_simps)
  next
    case False
    then have m: "min y (int (length B)) = int (length B)"
      "min (y + 1) (int (length B)) = int (length B)" by simp_all
    from down.IH show ?thesis unfolding fst_conv snd_conv m by (simp add: algebra_simps)
  qed
qed

lemma reach_beyond_corner:
  assumes "reach A B d (x, y)" and "int (length A) \<le> x" and "int (length B) \<le> y"
  shows "reach A B (d - (x - int (length A)) - (y - int (length B))) (int (length A), int (length B))"
proof -
  have "min x (int (length A)) = int (length A)" "min y (int (length B)) = int (length B)"
    using assms(2,3) by simp_all
  with reach_clamp [OF assms(1)] show ?thesis by simp
qed

text \<open>A common subsequence of length \<open>l\<close> gives a path to the corner with
  \<open>|A| + |B| - 2 l\<close> moves.\<close>

lemma subseq_snocD:
  "subseq zs (xs @ [a]) \<Longrightarrow> subseq zs xs \<or> (\<exists>zs'. zs = zs' @ [a] \<and> subseq zs' xs)"
proof -
  assume "subseq zs (xs @ [a])"
  then obtain xs1 xs2 where z: "zs = xs1 @ xs2" "subseq xs1 xs" "subseq xs2 [a]"
    by (auto simp: subseq_append_iff)
  from z(3) have "xs2 = [] \<or> xs2 = [a]"
    by (cases xs2) (auto simp: subseq_Cons2_iff split: if_splits)
  with z show ?thesis by auto
qed

lemma subseq_reach:
  "x \<le> length A \<Longrightarrow> y \<le> length B \<Longrightarrow> subseq zs (take x A) \<Longrightarrow> subseq zs (take y B) \<Longrightarrow>
   reach A B (int x + int y - 2 * int (length zs)) (int x, int y)"
proof (induction "x + y" arbitrary: x y zs rule: less_induct)
  case less
  show ?case
  proof (cases x)
    case 0
    with less.prems have "zs = []" by simp
    with 0 reach_downs [OF reach.origin, of A B y] show ?thesis by simp
  next
    case (Suc x')
    note x = Suc
    show ?thesis
    proof (cases y)
      case 0
      with less.prems have "zs = []" by simp
      with 0 reach_rights [of A B x] show ?thesis by simp
    next
      case (Suc y')
      from x less.prems have tx: "take x A = take x' A @ [A ! x']"
        by (simp add: take_Suc_conv_app_nth)
      from Suc less.prems have ty: "take y B = take y' B @ [B ! y']"
        by (simp add: take_Suc_conv_app_nth)
      from less.prems(3) tx
      consider (skipA) "subseq zs (take x' A)"
        | (useA) zs' where "zs = zs' @ [A ! x']" "subseq zs' (take x' A)"
        using subseq_snocD by metis
      then show ?thesis
      proof cases
        case skipA
        have "reach A B (int x' + int y - 2 * int (length zs)) (int x', int y)"
          using less.hyps [of x' y zs] x less.prems skipA by simp
        from reach.right [OF this] x show ?thesis by (simp add: algebra_simps)
      next
        case useA
        from less.prems(4) ty
        consider (skipB) "subseq zs (take y' B)"
          | (useB) zs'' where "zs = zs'' @ [B ! y']" "subseq zs'' (take y' B)"
          using subseq_snocD by metis
        then show ?thesis
        proof cases
          case skipB
          have "reach A B (int x + int y' - 2 * int (length zs)) (int x, int y')"
            using less.hyps [of x y' zs] Suc less.prems skipB by simp
          from reach.down [OF this] Suc show ?thesis by (simp add: algebra_simps)
        next
          case useB
          with useA have eq: "A ! x' = B ! y'" and same: "zs'' = zs'" by auto
          have "reach A B (int x' + int y' - 2 * int (length zs')) (int x', int y')"
            using less.hyps [of x' y' zs'] x Suc less.prems useA useB same by simp
          from reach.diagonal [OF this] x Suc less.prems eq useA
          show ?thesis by (simp add: algebra_simps)
        qed
      qed
    qed
  qed
qed

lemma common_subseq_reach:
  assumes "subseq zs A" and "subseq zs B"
  shows "reach A B (int (length A) + int (length B) - 2 * int (length zs))
           (int (length A), int (length B))"
  using subseq_reach [of "length A" A "length B" B zs] assms by simp

section \<open>The diagonal run\<close>

lemma source_of_simps [simp]:
  "source_of [] = []"
  "source_of (h @ [st]) = source_of h @ source_side st"
  "source_of (st # h) = source_side st @ source_of h"
  by (simp_all add: source_of_def)

lemma target_of_simps [simp]:
  "target_of [] = []"
  "target_of (h @ [st]) = target_of h @ target_side st"
  "target_of (st # h) = target_side st @ target_of h"
  by (simp_all add: target_of_def)

lemma kept_of_simps [simp]:
  "kept_of [] = []"
  "kept_of (st # h) = kept_side st @ kept_of h"
  by (simp_all add: kept_of_def)

lemma edits_simps [simp]:
  "edits [] = 0"
  "edits (h @ [st]) = edits h + (if is_edit st then 1 else 0)"
  "edits (st # h) = (if is_edit st then 1 else 0) + edits h"
  by (simp_all add: edits_def)

lemma py_index_in_range:
  "0 \<le> i \<Longrightarrow> i < int (length xs) \<Longrightarrow> py_index xs i = Inr (xs ! nat i)"
  by (simp add: py_index_def)

lemma take_nat_succ:
  "0 \<le> x \<Longrightarrow> x < int (length xs) \<Longrightarrow> take (nat (x + 1)) xs = take (nat x) xs @ [xs ! nat x]"
proof -
  assume a: "0 \<le> x" "x < int (length xs)"
  then have "nat (x + 1) = Suc (nat x)" by simp
  moreover from a have "nat x < length xs" by simp
  ultimately show ?thesis by (simp add: take_Suc_conv_app_nth)
qed

lemma script_for_keep:
  assumes "script_for A B d x y h" and "0 \<le> x" and "0 \<le> y"
    and "x < int (length A)" and "y < int (length B)" and "A ! nat x = B ! nat y"
    and "A ! nat x = (k, s)"
  shows "script_for A B d (x + 1) (y + 1) (h @ [Keep k s])"
  using assms unfolding script_for_def
  by (simp add: take_nat_succ)

lemma chew_spec:
  "node_ok A B d x y h \<Longrightarrow>
   \<exists>x' h'. chew A B x y h = Inr (x', x' - (x - y), h') \<and> x \<le> x' \<and>
     node_ok A B d x' (x' - (x - y)) h' \<and>
     \<not> (x' < int (length A) \<and> x' - (x - y) < int (length B) \<and>
        A ! nat x' = B ! nat (x' - (x - y)))"
proof (induction A B x y h rule: chew.induct)
  case (1 A B x y h)
  from "1.prems" have nn: "0 \<le> x" "0 \<le> y" and r: "reach A B d (x, y)"
    and sc: "script_for A B d x y h"
    by (simp_all add: node_ok_def)
  show ?case
  proof (cases "x < int (length A) \<and> y < int (length B) \<and> A ! nat x = B ! nat y")
    case False
    with nn have "chew A B x y h = Inr (x, y, h)"
      by (subst chew.simps) (auto simp: one_def py_index_in_range)
    with False "1.prems" show ?thesis by auto
  next
    case True
    then have lt: "x < int (length A)" "y < int (length B)" and eq: "A ! nat x = B ! nat y"
      by simp_all
    obtain k s where ks: "A ! nat x = (k, s)" by (cases "A ! nat x")
    with eq have kb: "B ! nat y = (k, s)" by simp
    have ia: "py_index A (one (x + 1)) = Inr (A ! nat x)"
      and ib: "py_index B (one (y + 1)) = Inr (B ! nat y)"
      using nn lt by (simp_all add: one_def py_index_in_range)
    have step: "chew A B x y h = chew A B (x + 1) (y + 1) (h @ [Keep k s])"
      using lt by (subst chew.simps) (simp add: ia ib ks kb)
    have ok: "node_ok A B d (x + 1) (y + 1) (h @ [Keep k s])"
      unfolding node_ok_def
      using nn reach.diagonal [OF r lt eq] script_for_keep [OF sc nn lt eq ks] by simp
    from "1.IH" [OF conjI [OF lt] ia ib eq ia ks [symmetric] ok]
    obtain x' h' where
      "chew A B (x + 1) (y + 1) (h @ [Keep k s]) = Inr (x', x' - (x + 1 - (y + 1)), h')"
      "x + 1 \<le> x'" "node_ok A B d x' (x' - (x + 1 - (y + 1))) h'"
      "\<not> (x' < int (length A) \<and> x' - (x + 1 - (y + 1)) < int (length B) \<and>
        A ! nat x' = B ! nat (x' - (x + 1 - (y + 1))))"
      by auto
    with step show ?thesis by (intro exI [of _ x'] exI [of _ h']) simp
  qed
qed

section \<open>One iteration of the search\<close>

lemma furthest:
  assumes ub1: "\<And>x0 y0. reach A B (d - 1) (x0, y0) \<Longrightarrow> x0 + 1 - y0 = k \<Longrightarrow> x0 + 1 \<le> x'"
    and ub2: "\<And>x0 y0. reach A B (d - 1) (x0, y0) \<Longrightarrow> x0 - (y0 + 1) = k \<Longrightarrow> x0 \<le> x'"
    and z: "0 \<le> x'"
    and mx: "\<not> (x' < int (length A) \<and> x' - k < int (length B) \<and> A ! nat x' = B ! nat (x' - k))"
  shows "reach A B d' p \<Longrightarrow> d' = d \<Longrightarrow> fst p - snd p = k \<Longrightarrow> fst p \<le> x'"
proof (induction rule: reach.induct)
  case origin
  with z show ?case by simp
next
  case (diagonal d0 x y)
  then have le: "x \<le> x'" and k: "x - y = k" by simp_all
  show ?case
  proof (cases "x = x'")
    case True
    with k have "y = x' - k" by simp
    with True diagonal.hyps mx show ?thesis by simp
  next
    case False
    with le show ?thesis by simp
  qed
next
  case (right d0 x y)
  then have "reach A B (d - 1) (x, y)" by auto
  from ub1 [OF this] right.prems show ?case by simp
next
  case (down d0 x y)
  then have "reach A B (d - 1) (x, y)" by auto
  from ub2 [OF this] down.prems show ?case by simp
qed

lemma finish_iter:
  assumes ok: "node_ok A B d x (x - k) h1"
    and ub1: "\<forall>x0 y0. reach A B (d - 1) (x0, y0) \<longrightarrow> x0 + 1 - y0 = k \<longrightarrow> x0 + 1 \<le> x"
    and ub2: "\<forall>x0 y0. reach A B (d - 1) (x0, y0) \<longrightarrow> x0 - (y0 + 1) = k \<longrightarrow> x0 \<le> x"
    and ns: "no_script A B (d - 1)"
  shows "\<exists>x2 h2. chew A B x (x - k) h1 = Inr (x2, x2 - k, h2) \<and>
           (if int (length A) \<le> x2 \<and> int (length B) \<le> x2 - k then final_ok A B d h2
            else entry_ok A B d k (Frontier x2 h2))"
proof -
  from chew_spec [OF ok] obtain x2 h2 where
    c: "chew A B x (x - k) h1 = Inr (x2, x2 - k, h2)" and le: "x \<le> x2"
    and ok2: "node_ok A B d x2 (x2 - k) h2"
    and mx: "\<not> (x2 < int (length A) \<and> x2 - k < int (length B) \<and>
        A ! nat x2 = B ! nat (x2 - k))"
    by auto
  from ok2 have nn: "0 \<le> x2" "0 \<le> x2 - k" and r: "reach A B d (x2, x2 - k)"
    and sc: "script_for A B d x2 (x2 - k) h2"
    by (simp_all add: node_ok_def)
  have far: "x' \<le> x2" if "reach A B d (x', x' - k)" for x'
  proof -
    have "fst (x', x' - k) \<le> x2"
    proof (rule furthest [OF _ _ nn(1) mx that])
      fix x0 y0 assume "reach A B (d - 1) (x0, y0)" "x0 + 1 - y0 = k"
      with ub1 le show "x0 + 1 \<le> x2" by fastforce
    next
      fix x0 y0 assume "reach A B (d - 1) (x0, y0)" "x0 - (y0 + 1) = k"
      with ub2 le show "x0 \<le> x2" by fastforce
    qed simp_all
    then show ?thesis by simp
  qed
  show ?thesis
  proof (cases "int (length A) \<le> x2 \<and> int (length B) \<le> x2 - k")
    case True
    from reach_beyond_corner [OF r] True
    have "reach A B (d - (x2 - int (length A)) - (x2 - k - int (length B)))
            (int (length A), int (length B))" by simp
    with ns have "\<not> d - (x2 - int (length A)) - (x2 - k - int (length B)) \<le> d - 1"
      unfolding no_script_def by blast
    with True have at: "x2 = int (length A)" "x2 - k = int (length B)" by simp_all
    with sc have "source_of h2 = A \<and> target_of h2 = B \<and> int (edits h2) = d \<and>
        list_all engine_step h2"
      unfolding script_for_def by simp
    with ns r at have "final_ok A B d h2" by (simp add: final_ok_def)
    with c True show ?thesis by auto
  next
    case False
    with ok2 far have "entry_ok A B d k (Frontier x2 h2)"
      by (simp add: entry_ok_def)
    with c False show ?thesis by auto
  qed
qed

lemma first_move_total:
  "\<exists>h1. first_move A B gd x y h = Inr h1"
  unfolding first_move_def
  by (auto simp: one_def py_index_in_range split: prod.splits)

lemma first_move_down:
  assumes ok: "node_ok A B (d - 1) x (y - 1) h"
  shows "\<exists>h1. first_move A B True x y h = Inr h1 \<and> node_ok A B d x y h1"
proof -
  from ok have nn: "0 \<le> x" "1 \<le> y" and r: "reach A B (d - 1) (x, y - 1)"
    and sc: "script_for A B (d - 1) x (y - 1) h"
    by (simp_all add: node_ok_def)
  from reach.down [OF r] have r': "reach A B d (x, y)" by simp
  show ?thesis
  proof (cases "y \<le> int (length B)")
    case True
    obtain k s where ks: "B ! nat (y - 1) = (k, s)" by (cases "B ! nat (y - 1)")
    from nn True have "py_index B (one y) = Inr (B ! nat (y - 1))"
      by (simp add: one_def py_index_in_range)
    with nn True ks have fm: "first_move A B True x y h = Inr (h @ [Insert k s])"
      by (simp add: first_move_def)
    from nn True have "take (nat (y - 1 + 1)) B = take (nat (y - 1)) B @ [B ! nat (y - 1)]"
      by (intro take_nat_succ) simp_all
    then have tk: "take (nat y) B = take (nat (y - 1)) B @ [(k, s)]" using ks by simp
    from sc tk True have "script_for A B d x y (h @ [Insert k s])"
      unfolding script_for_def by simp
    with fm nn r' show ?thesis by (simp add: node_ok_def)
  next
    case False
    then have "script_for A B d x y h1" for h1 by (simp add: script_for_def)
    with first_move_total [of A B True x y h] nn r' show ?thesis
      by (auto simp: node_ok_def)
  qed
qed

lemma first_move_right:
  assumes ok: "node_ok A B (d - 1) (x - 1) y h"
  shows "\<exists>h1. first_move A B False x y h = Inr h1 \<and> node_ok A B d x y h1"
proof -
  from ok have nn: "1 \<le> x" "0 \<le> y" and r: "reach A B (d - 1) (x - 1, y)"
    and sc: "script_for A B (d - 1) (x - 1) y h"
    by (simp_all add: node_ok_def)
  from reach.right [OF r] have r': "reach A B d (x, y)" by simp
  show ?thesis
  proof (cases "x \<le> int (length A)")
    case True
    obtain k s where ks: "A ! nat (x - 1) = (k, s)" by (cases "A ! nat (x - 1)")
    from nn True have "py_index A (one x) = Inr (A ! nat (x - 1))"
      by (simp add: one_def py_index_in_range)
    with nn True ks have fm: "first_move A B False x y h = Inr (h @ [Remove k s])"
      by (simp add: first_move_def)
    from nn True have "take (nat (x - 1 + 1)) A = take (nat (x - 1)) A @ [A ! nat (x - 1)]"
      by (intro take_nat_succ) simp_all
    then have tk: "take (nat x) A = take (nat (x - 1)) A @ [(k, s)]" using ks by simp
    from sc tk True have "script_for A B d x y (h @ [Remove k s])"
      unfolding script_for_def by simp
    with fm nn r' show ?thesis by (simp add: node_ok_def)
  next
    case False
    then have "script_for A B d x y h1" for h1 by (simp add: script_for_def)
    with first_move_total [of A B False x y h] nn r' show ?thesis
      by (auto simp: node_ok_def)
  qed
qed

lemma diag_iter_from:
  assumes gd: "go_down fr d k = Inr gd"
    and sp: "start_point fr k gd = Inr (x, h)"
    and fm: "first_move A B gd x (x - k) h = Inr h1"
    and ok: "node_ok A B d x (x - k) h1"
    and ub1: "\<forall>x0 y0. reach A B (d - 1) (x0, y0) \<longrightarrow> x0 + 1 - y0 = k \<longrightarrow> x0 + 1 \<le> x"
    and ub2: "\<forall>x0 y0. reach A B (d - 1) (x0, y0) \<longrightarrow> x0 - (y0 + 1) = k \<longrightarrow> x0 \<le> x"
    and ns: "no_script A B (d - 1)"
  shows "(\<exists>h2. diag_iter A B fr d k = Inr (Return h2) \<and> final_ok A B d h2) \<or>
         (\<exists>f. diag_iter A B fr d k = Inr (Continue (fr(k \<mapsto> f))) \<and> entry_ok A B d k f)"
proof -
  from finish_iter [OF ok ub1 ub2 ns] obtain x2 h2 where
    c: "chew A B x (x - k) h1 = Inr (x2, x2 - k, h2)"
    and r: "if int (length A) \<le> x2 \<and> int (length B) \<le> x2 - k then final_ok A B d h2
            else entry_ok A B d k (Frontier x2 h2)"
    by blast
  show ?thesis
  proof (cases "int (length A) \<le> x2 \<and> int (length B) \<le> x2 - k")
    case True
    with gd sp fm c have "diag_iter A B fr d k = Inr (Return h2)"
      by (simp add: diag_iter_def)
    with r True show ?thesis by simp
  next
    case False
    with gd sp fm c have "diag_iter A B fr d k = Inr (Continue (fr(k \<mapsto> Frontier x2 h2)))"
      by (simp add: diag_iter_def)
    with r False show ?thesis by auto
  qed
qed

lemma diag_iter_first:
  assumes ns: "no_script A B (- 1)"
  shows "(\<exists>h2. diag_iter A B [1 \<mapsto> Frontier 0 []] 0 0 = Inr (Return h2) \<and> final_ok A B 0 h2) \<or>
         (\<exists>f. diag_iter A B [1 \<mapsto> Frontier 0 []] 0 0 =
                 Inr (Continue ([1 \<mapsto> Frontier 0 []](0 \<mapsto> f))) \<and> entry_ok A B 0 0 f)"
proof (rule diag_iter_from [where gd = True and x = 0 and h = "[]" and ?h1.0 = "[]"])
  show "go_down [1 \<mapsto> Frontier 0 []] 0 0 = Inr True" by (simp add: go_down_def)
  show "start_point [1 \<mapsto> Frontier 0 []] 0 True = Inr (0, [])"
    by (simp add: start_point_def lookup_def)
  show "first_move A B True 0 (0 - 0) [] = Inr []" by (simp add: first_move_def)
  show "node_ok A B 0 0 (0 - 0) []"
    by (simp add: node_ok_def script_for_def reach.origin)
  show "no_script A B (0 - 1)" using ns by simp
  show "\<forall>x0 y0. reach A B (0 - 1) (x0, y0) \<longrightarrow> x0 + 1 - y0 = 0 \<longrightarrow> x0 + 1 \<le> 0"
    using reach_nonneg by fastforce
  show "\<forall>x0 y0. reach A B (0 - 1) (x0, y0) \<longrightarrow> x0 - (y0 + 1) = 0 \<longrightarrow> x0 \<le> 0"
    using reach_nonneg by fastforce
qed

lemma diag_iter_step:
  assumes d: "1 \<le> d" and k: "\<bar>k\<bar> \<le> d" "even (d - k)"
    and L: "k \<noteq> - d \<Longrightarrow> \<exists>f. fr (k - 1) = Some f \<and> entry_ok A B (d - 1) (k - 1) f"
    and R: "k \<noteq> d \<Longrightarrow> \<exists>f. fr (k + 1) = Some f \<and> entry_ok A B (d - 1) (k + 1) f"
    and ns: "no_script A B (d - 1)"
  shows "(\<exists>h2. diag_iter A B fr d k = Inr (Return h2) \<and> final_ok A B d h2) \<or>
         (\<exists>f. diag_iter A B fr d k = Inr (Continue (fr(k \<mapsto> f))) \<and> entry_ok A B d k f)"
proof -
  have noL: "False" if "k = - d" "reach A B (d - 1) (x0, y0)" "x0 + 1 - y0 = k" for x0 y0
  proof -
    from reach_band [OF that(2)] have "\<bar>x0 - y0\<bar> \<le> d - 1" by simp
    with that(1,3) show False by arith
  qed
  have noR: "False" if "k = d" "reach A B (d - 1) (x0, y0)" "x0 - (y0 + 1) = k" for x0 y0
  proof -
    from reach_band [OF that(2)] have "\<bar>x0 - y0\<bar> \<le> d - 1" by simp
    with that(1,3) show False by arith
  qed
  have farL: "x0 + 1 \<le> fx f + 1"
    if "entry_ok A B (d - 1) (k - 1) f" "reach A B (d - 1) (x0, y0)" "x0 + 1 - y0 = k" for f x0 y0
  proof -
    from that(3) have "y0 = x0 - (k - 1)" by simp
    with that(1,2) show ?thesis by (simp add: entry_ok_def)
  qed
  have farR: "x0 \<le> fx f"
    if "entry_ok A B (d - 1) (k + 1) f" "reach A B (d - 1) (x0, y0)" "x0 - (y0 + 1) = k" for f x0 y0
  proof -
    from that(3) have "y0 = x0 - (k + 1)" by simp
    with that(1,2) show ?thesis by (simp add: entry_ok_def)
  qed
  have down: ?thesis
    if gd: "go_down fr d k = Inr True" and f2: "fr (k + 1) = Some f2"
      and e2: "entry_ok A B (d - 1) (k + 1) f2"
      and ub: "\<forall>x0 y0. reach A B (d - 1) (x0, y0) \<longrightarrow> x0 + 1 - y0 = k \<longrightarrow> x0 + 1 \<le> fx f2"
    for f2
  proof -
    from e2 have "node_ok A B (d - 1) (fx f2) (fx f2 - k - 1) (fhistory f2)"
      by (simp add: entry_ok_def algebra_simps)
    from first_move_down [OF this] obtain h1 where
      fm: "first_move A B True (fx f2) (fx f2 - k) (fhistory f2) = Inr h1"
      and ok: "node_ok A B d (fx f2) (fx f2 - k) h1" by blast
    from f2 have sp: "start_point fr k True = Inr (fx f2, fhistory f2)"
      by (simp add: start_point_def lookup_def)
    show ?thesis
      by (rule diag_iter_from [OF gd sp fm ok ub _ ns]) (use farR [OF e2] in blast)
  qed
  have right: ?thesis
    if gd: "go_down fr d k = Inr False" and f1: "fr (k - 1) = Some f1"
      and e1: "entry_ok A B (d - 1) (k - 1) f1"
      and ub: "\<forall>x0 y0. reach A B (d - 1) (x0, y0) \<longrightarrow> x0 - (y0 + 1) = k \<longrightarrow> x0 \<le> fx f1 + 1"
    for f1
  proof -
    from e1 have "node_ok A B (d - 1) (fx f1 + 1 - 1) (fx f1 + 1 - k) (fhistory f1)"
      by (simp add: entry_ok_def algebra_simps)
    from first_move_right [OF this] obtain h1 where
      fm: "first_move A B False (fx f1 + 1) (fx f1 + 1 - k) (fhistory f1) = Inr h1"
      and ok: "node_ok A B d (fx f1 + 1) (fx f1 + 1 - k) h1" by blast
    from f1 have sp: "start_point fr k False = Inr (fx f1 + 1, fhistory f1)"
      by (simp add: start_point_def lookup_def)
    show ?thesis
      by (rule diag_iter_from [OF gd sp fm ok _ ub ns]) (use farL [OF e1] in simp)
  qed
  show ?thesis
  proof (cases "k = - d")
    case True
    with d have "k \<noteq> d" by simp
    from R [OF this] obtain f2 where f2: "fr (k + 1) = Some f2"
      "entry_ok A B (d - 1) (k + 1) f2" by blast
    from True have "go_down fr d k = Inr True" by (simp add: go_down_def)
    from down [OF this f2] noL [OF True] show ?thesis by blast
  next
    case nl: False
    from L [OF nl] obtain f1 where f1: "fr (k - 1) = Some f1"
      "entry_ok A B (d - 1) (k - 1) f1" by blast
    show ?thesis
    proof (cases "k = d")
      case True
      with nl have "go_down fr d k = Inr False" by (simp add: go_down_def)
      from right [OF this f1] noR [OF True] show ?thesis by blast
    next
      case nr: False
      from R [OF nr] obtain f2 where f2: "fr (k + 1) = Some f2"
        "entry_ok A B (d - 1) (k + 1) f2" by blast
      from nl nr f1 f2 have g: "go_down fr d k = Inr (fx f1 < fx f2)"
        by (simp add: go_down_def lookup_def)
      show ?thesis
      proof (cases "fx f1 < fx f2")
        case True
        with g have "go_down fr d k = Inr True" by simp
        moreover have "\<forall>x0 y0. reach A B (d - 1) (x0, y0) \<longrightarrow> x0 + 1 - y0 = k \<longrightarrow>
            x0 + 1 \<le> fx f2"
        proof (intro allI impI)
          fix x0 y0 assume "reach A B (d - 1) (x0, y0)" "x0 + 1 - y0 = k"
          from farL [OF f1(2) this] True show "x0 + 1 \<le> fx f2" by simp
        qed
        ultimately show ?thesis using down [OF _ f2] by blast
      next
        case False
        with g have "go_down fr d k = Inr False" by simp
        moreover have "\<forall>x0 y0. reach A B (d - 1) (x0, y0) \<longrightarrow> x0 - (y0 + 1) = k \<longrightarrow>
            x0 \<le> fx f1 + 1"
        proof (intro allI impI)
          fix x0 y0 assume "reach A B (d - 1) (x0, y0)" "x0 - (y0 + 1) = k"
          from farR [OF f2(2) this] False show "x0 \<le> fx f1 + 1" by simp
        qed
        ultimately show ?thesis using right [OF _ f1] by blast
      qed
    qed
  qed
qed

section \<open>The loops of the search\<close>

lemma py_range_2_set:
  "set (py_range lo hi 2) = {k. lo \<le> k \<and> k < hi \<and> even (k - lo)}"
proof (induction lo hi "2 :: int" rule: py_range.induct)
  case (1 start stop)
  show ?case
  proof (cases "start < stop")
    case False
    then show ?thesis by (subst py_range.simps) auto
  next
    case True
    then have "set (py_range start stop 2) = insert start (set (py_range (start + 2) stop 2))"
      by (subst py_range.simps) simp
    also have "\<dots> = insert start {k. start + 2 \<le> k \<and> k < stop \<and> even (k - (start + 2))}"
      using "1.hyps" True by simp
    also have "\<dots> = {k. start \<le> k \<and> k < stop \<and> even (k - start)}"
    proof (intro set_eqI iffI)
      fix k assume "k \<in> insert start {k. start + 2 \<le> k \<and> k < stop \<and> even (k - (start + 2))}"
      with True show "k \<in> {k. start \<le> k \<and> k < stop \<and> even (k - start)}" by auto
    next
      fix k assume a: "k \<in> {k. start \<le> k \<and> k < stop \<and> even (k - start)}"
      show "k \<in> insert start {k. start + 2 \<le> k \<and> k < stop \<and> even (k - (start + 2))}"
      proof (cases "k = start")
        case True
        then show ?thesis by simp
      next
        case False
        with a have "k \<noteq> start + 1" by auto
        with a False show ?thesis by auto
      qed
    qed
    finally show ?thesis .
  qed
qed

lemma py_range_diagonals:
  "0 \<le> d \<Longrightarrow> set (py_range (- d) (d + 1) 2) = {k. \<bar>k\<bar> \<le> d \<and> even (d - k)}"
  unfolding py_range_2_set by auto

lemma py_range_1: "py_range lo hi 1 = [lo..hi - 1]"
proof (induction lo hi "1 :: int" rule: py_range.induct)
  case (1 start stop)
  show ?case
  proof (cases "start < stop")
    case False
    then show ?thesis by (subst py_range.simps) simp
  next
    case True
    then have "py_range start stop 1 = start # py_range (start + 1) stop 1"
      by (subst py_range.simps) simp
    also have "\<dots> = start # [start + 1..stop - 1]" using "1.hyps" True by simp
    also have "\<dots> = [start..stop - 1]" using True by (simp add: upto_rec1)
    finally show ?thesis .
  qed
qed

lemma round_ok_upd:
  assumes "round_ok A B (d - 1) fr" and "even (d - k)"
  shows "round_ok A B (d - 1) (fr(k \<mapsto> f))"
  unfolding round_ok_def
proof (intro allI impI)
  fix k' assume a: "\<bar>k'\<bar> \<le> d - 1 \<and> even (d - 1 - k')"
  with assms(2) have "k' \<noteq> k" by auto
  with assms(1) a show "\<exists>f'. (fr(k \<mapsto> f)) k' = Some f' \<and> entry_ok A B (d - 1) k' f'"
    by (simp add: round_ok_def)
qed

lemma diag_loop_round:
  assumes "1 \<le> d" and "\<forall>k \<in> set ks. \<bar>k\<bar> \<le> d \<and> even (d - k)"
    and "round_ok A B (d - 1) fr" and "no_script A B (d - 1)"
  shows "(\<exists>h. diag_loop A B d ks fr = Inr (Return h) \<and> final_ok A B d h) \<or>
         (\<exists>fr'. diag_loop A B d ks fr = Inr (Continue fr') \<and>
            (\<forall>k \<in> set ks. \<exists>f. fr' k = Some f \<and> entry_ok A B d k f) \<and>
            (\<forall>k. k \<notin> set ks \<longrightarrow> fr' k = fr k))"
  using assms
proof (induction ks arbitrary: fr)
  case Nil
  then show ?case by simp
next
  case (Cons k ks)
  from Cons.prems have k: "\<bar>k\<bar> \<le> d" "even (d - k)" by simp_all
  have L: "\<exists>f. fr (k - 1) = Some f \<and> entry_ok A B (d - 1) (k - 1) f" if "k \<noteq> - d"
  proof -
    from k that have "\<bar>k - 1\<bar> \<le> d - 1 \<and> even (d - 1 - (k - 1))" by presburger
    with Cons.prems(3) show ?thesis unfolding round_ok_def by blast
  qed
  have R: "\<exists>f. fr (k + 1) = Some f \<and> entry_ok A B (d - 1) (k + 1) f" if "k \<noteq> d"
  proof -
    from k that have "\<bar>k + 1\<bar> \<le> d - 1 \<and> even (d - 1 - (k + 1))" by presburger
    with Cons.prems(3) show ?thesis unfolding round_ok_def by blast
  qed
  from diag_iter_step [OF Cons.prems(1) k L R Cons.prems(4)]
  consider (ret) h where "diag_iter A B fr d k = Inr (Return h)" "final_ok A B d h"
    | (cont) f where "diag_iter A B fr d k = Inr (Continue (fr(k \<mapsto> f)))" "entry_ok A B d k f"
    by blast
  then show ?case
  proof cases
    case ret
    then show ?thesis by simp
  next
    case cont
    have ro: "round_ok A B (d - 1) (fr(k \<mapsto> f))"
      by (rule round_ok_upd [OF Cons.prems(3) k(2)])
    from Cons.prems(2) have ks: "\<forall>k \<in> set ks. \<bar>k\<bar> \<le> d \<and> even (d - k)"
      by (simp del: even_diff)
    from Cons.IH [OF Cons.prems(1) ks ro Cons.prems(4)]
    consider (ret') h where "diag_loop A B d ks (fr(k \<mapsto> f)) = Inr (Return h)" "final_ok A B d h"
      | (cont') fr' where "diag_loop A B d ks (fr(k \<mapsto> f)) = Inr (Continue fr')"
          "\<forall>k' \<in> set ks. \<exists>f'. fr' k' = Some f' \<and> entry_ok A B d k' f'"
          "\<forall>k'. k' \<notin> set ks \<longrightarrow> fr' k' = (fr(k \<mapsto> f)) k'"
      by blast
    then show ?thesis
    proof cases
      case ret'
      with cont show ?thesis by simp
    next
      case cont'
      have "\<exists>f'. fr' k = Some f' \<and> entry_ok A B d k f'"
      proof (cases "k \<in> set ks")
        case True
        with cont'(2) show ?thesis by blast
      next
        case False
        with cont'(3) have "fr' k = Some f" by simp
        with cont(2) show ?thesis by simp
      qed
      moreover have "\<forall>k'. k' \<notin> set (k # ks) \<longrightarrow> fr' k' = fr k'"
        using cont'(3) by simp
      ultimately show ?thesis using cont(1) cont'(1,2) by simp
    qed
  qed
qed

lemma round_no_script:
  assumes "round_ok A B d fr" and "no_script A B (d - 1)"
  shows "no_script A B d"
proof -
  have "\<not> reach A B d (int (length A), int (length B))"
  proof
    assume r: "reach A B d (int (length A), int (length B))"
    define k where "k = int (length A) - int (length B)"
    from reach_band [OF r] have "\<bar>k\<bar> \<le> d \<and> even (d - k)" by (simp add: k_def)
    with assms(1) obtain f where f: "fr k = Some f" "entry_ok A B d k f"
      unfolding round_ok_def by blast
    from r have "reach A B d (int (length A), int (length A) - k)" by (simp add: k_def)
    with f(2) have "int (length A) \<le> fx f" by (simp add: entry_ok_def)
    moreover from this have "int (length B) \<le> fx f - k" by (simp add: k_def)
    ultimately show False using f(2) by (simp add: entry_ok_def)
  qed
  with assms(2) show ?thesis
    unfolding no_script_def by (metis zle_diff1_eq order_le_less)
qed

lemma dist_loop_upto:
  assumes "1 \<le> d" and "round_ok A B (d - 1) fr" and "no_script A B (d - 1)" and "d - 1 \<le> D"
  shows "(\<exists>h d'. d \<le> d' \<and> d' \<le> D \<and> dist_loop A B [d..D] fr = Inr h \<and> final_ok A B d' h) \<or>
         (dist_loop A B [d..D] fr = Inl AssertionError \<and> no_script A B D)"
  using assms
proof (induction "nat (D + 1 - d)" arbitrary: d fr)
  case 0
  then have "D = d - 1" by simp
  with "0.prems"(3) show ?case by simp
next
  case (Suc n)
  then have le: "d \<le> D" by simp
  then have up: "[d..D] = d # [d + 1..D]" by (simp add: upto_rec1)
  from Suc.prems(1) have ks: "\<forall>k \<in> set (py_range (- d) (d + 1) 2). \<bar>k\<bar> \<le> d \<and> even (d - k)"
    by (simp add: py_range_diagonals)
  from diag_loop_round [OF Suc.prems(1) ks Suc.prems(2,3)]
  consider (ret) h where "diag_loop A B d (py_range (- d) (d + 1) 2) fr = Inr (Return h)"
      "final_ok A B d h"
    | (cont) fr' where "diag_loop A B d (py_range (- d) (d + 1) 2) fr = Inr (Continue fr')"
      "\<forall>k \<in> set (py_range (- d) (d + 1) 2). \<exists>f. fr' k = Some f \<and> entry_ok A B d k f"
    by blast
  then show ?case
  proof cases
    case ret
    with up le show ?thesis by auto
  next
    case cont
    from cont(2) Suc.prems(1) have ro: "round_ok A B (d + 1 - 1) fr'"
      by (simp add: py_range_diagonals round_ok_def)
    then have "round_ok A B d fr'" by simp
    from round_no_script [OF this Suc.prems(3)] have ns: "no_script A B (d + 1 - 1)" by simp
    from Suc.hyps(2) have n: "n = nat (D + 1 - (d + 1))" by simp
    from Suc.prems(1) have d1: "1 \<le> d + 1" by simp
    from le have dD: "d + 1 - 1 \<le> D" by simp
    from Suc.hyps(1) [OF n d1 ro ns dD]
    consider (found) h d' where "d + 1 \<le> d'" "d' \<le> D" "dist_loop A B [d + 1..D] fr' = Inr h"
        "final_ok A B d' h"
      | (none) "dist_loop A B [d + 1..D] fr' = Inl AssertionError" "no_script A B D"
      by blast
    then show ?thesis
    proof cases
      case found
      have "d \<le> d' \<and> d' \<le> D \<and> dist_loop A B [d..D] fr = Inr h \<and> final_ok A B d' h"
        using found up cont(1) by simp
      then show ?thesis by blast
    next
      case none
      with up cont(1) show ?thesis by simp
    qed
  qed
qed

lemma search_upto:
  assumes "- 1 \<le> D"
  shows "(\<exists>h d'. 0 \<le> d' \<and> d' \<le> D \<and> dist_loop A B [0..D] initial_frontier = Inr h \<and>
            final_ok A B d' h) \<or>
         (dist_loop A B [0..D] initial_frontier = Inl AssertionError \<and> no_script A B D)"
proof (cases "D = - 1")
  case True
  have "no_script A B (- 1)"
    unfolding no_script_def using reach_nonneg by fastforce
  with True show ?thesis by simp
next
  case False
  with assms have D: "0 \<le> D" by simp
  let ?fr = "[1 \<mapsto> Frontier 0 []] :: int \<rightharpoonup> frontier"
  have ns: "no_script A B (- 1)"
    unfolding no_script_def using reach_nonneg by fastforce
  have r0: "py_range 0 1 2 = [0]"
    by (simp add: py_range.simps)
  from D have up: "[0..D] = 0 # [1..D]"
    by (simp add: upto_rec1)
  from diag_iter_first [OF ns]
  consider (ret) h where "diag_iter A B ?fr 0 0 = Inr (Return h)" "final_ok A B 0 h"
    | (cont) f where "diag_iter A B ?fr 0 0 = Inr (Continue (?fr(0 \<mapsto> f)))" "entry_ok A B 0 0 f"
    by blast
  then show ?thesis
  proof cases
    case ret
    then have "dist_loop A B [0..D] initial_frontier = Inr h"
      unfolding initial_frontier_def up by (simp add: r0)
    with ret(2) D show ?thesis by blast
  next
    case cont
    have ro: "round_ok A B (1 - 1) (?fr(0 \<mapsto> f))"
      using cont(2) by (simp add: round_ok_def)
    then have "round_ok A B 0 (?fr(0 \<mapsto> f))" by simp
    from round_no_script [OF this] ns have ns1: "no_script A B (1 - 1)" by simp
    from D have D1: "1 - 1 \<le> D" by simp
    from dist_loop_upto [OF _ ro ns1 D1]
    consider (found) h d' where "1 \<le> d'" "d' \<le> D" "dist_loop A B [1..D] (?fr(0 \<mapsto> f)) = Inr h"
        "final_ok A B d' h"
      | (none) "dist_loop A B [1..D] (?fr(0 \<mapsto> f)) = Inl AssertionError" "no_script A B D"
      by auto
    then show ?thesis
    proof cases
      case found
      with cont(1) have "dist_loop A B [0..D] initial_frontier = Inr h"
        unfolding initial_frontier_def up by (simp add: r0)
      moreover from found(1) have "0 \<le> d'" by simp
      ultimately show ?thesis using found(2,4) by blast
    next
      case none
      with cont(1) have "dist_loop A B [0..D] initial_frontier = Inl AssertionError"
        unfolding initial_frontier_def up by (simp add: r0)
      with none(2) show ?thesis by simp
    qed
  qed
qed

lemma edit_script_upto:
  "edit_script A B = dist_loop A B [0..int (length A) + int (length B)] initial_frontier"
  by (simp add: edit_script_def py_range_1)

lemma edit_script_final:
  "\<exists>h d. 0 \<le> d \<and> d \<le> int (length A) + int (length B) \<and> edit_script A B = Inr h \<and>
     final_ok A B d h"
proof -
  have "- 1 \<le> int (length A) + int (length B)" by simp
  from search_upto [OF this, of A B] reach_corner_direct [of A B] show ?thesis
    unfolding edit_script_upto no_script_def by blast
qed

section \<open>The longest common subsequence\<close>

lemma lcs_length_attained:
  "\<exists>zs. subseq zs xs \<and> subseq zs ys \<and> length zs = lcs_length xs ys"
proof (induction xs ys rule: lcs_length.induct)
  case (1 ys)
  show ?case by simp
next
  case (2 x xs)
  show ?case by simp
next
  case (3 x xs y ys)
  show ?case
  proof (cases "x = y")
    case True
    with 3 obtain zs where "subseq zs xs" "subseq zs ys" "length zs = lcs_length xs ys"
      by blast
    with True have "subseq (x # zs) (x # xs) \<and> subseq (x # zs) (y # ys) \<and>
        length (x # zs) = lcs_length (x # xs) (y # ys)" by simp
    then show ?thesis by blast
  next
    case False
    with 3 obtain z1 z2 where
      z1: "subseq z1 xs" "subseq z1 (y # ys)" "length z1 = lcs_length xs (y # ys)" and
      z2: "subseq z2 (x # xs)" "subseq z2 ys" "length z2 = lcs_length (x # xs) ys"
      by blast
    show ?thesis
    proof (cases "lcs_length xs (y # ys) \<le> lcs_length (x # xs) ys")
      case True
      with False z2 have "subseq z2 (x # xs) \<and> subseq z2 (y # ys) \<and>
          length z2 = lcs_length (x # xs) (y # ys)" by (auto simp: max_def)
      then show ?thesis by blast
    next
      case le: False
      with False z1 have "subseq z1 (x # xs) \<and> subseq z1 (y # ys) \<and>
          length z1 = lcs_length (x # xs) (y # ys)" by (auto simp: max_def)
      then show ?thesis by blast
    qed
  qed
qed

lemma lcs_length_upper:
  "subseq zs xs \<Longrightarrow> subseq zs ys \<Longrightarrow> length zs \<le> lcs_length xs ys"
proof (induction xs ys arbitrary: zs rule: lcs_length.induct)
  case (1 ys)
  then show ?case by simp
next
  case (2 x xs)
  then show ?case by simp
next
  case (3 x xs y ys)
  show ?case
  proof (cases zs)
    case Nil
    then show ?thesis by simp
  next
    case (Cons z zs')
    show ?thesis
    proof (cases "x = y")
      case True
      show ?thesis
      proof (cases "z = x")
        case zx: True
        with True Cons "3.prems" have "subseq zs' xs" "subseq zs' ys" by simp_all
        from "3.IH"(1) [OF True this] True Cons show ?thesis by simp
      next
        case False
        with True Cons "3.prems" have "subseq zs xs" "subseq zs ys" by simp_all
        from "3.IH"(1) [OF True this] True show ?thesis by simp
      qed
    next
      case ne: False
      show ?thesis
      proof (cases "z = x")
        case True
        with ne Cons "3.prems" have "subseq zs (x # xs)" "subseq zs ys" by simp_all
        from "3.IH"(3) [OF ne this] ne show ?thesis by simp
      next
        case False
        with Cons "3.prems" have "subseq zs xs" "subseq zs (y # ys)" by simp_all
        from "3.IH"(2) [OF ne this] ne show ?thesis by simp
      qed
    qed
  qed
qed

section \<open>The classifier\<close>

lemma finalize_classified:
  "list_all (keep_computed distance sa sb) h \<Longrightarrow>
   finalize distance h sa sb = Inr (map (classified distance sa sb) h)"
proof (induction h)
  case Nil
  show ?case by simp
next
  case (Cons st h)
  then show ?case by (cases st) (auto split: option.splits)
qed

lemma finalize_raises:
  "\<not> list_all (keep_computed distance sa sb) h \<Longrightarrow> \<exists>e. finalize distance h sa sb = Inl e"
proof (induction h)
  case Nil
  then show ?case by simp
next
  case (Cons st h)
  then show ?case by (cases st) (auto split: option.splits sum.splits)
qed

lemma finalize_returns_iff:
  "(\<exists>out. finalize distance h sa sb = Inr out) \<longleftrightarrow> list_all (keep_computed distance sa sb) h"
proof
  assume r: "\<exists>out. finalize distance h sa sb = Inr out"
  show "list_all (keep_computed distance sa sb) h"
  proof (rule ccontr)
    assume "\<not> list_all (keep_computed distance sa sb) h"
    from finalize_raises [OF this] r show False by auto
  qed
next
  assume "list_all (keep_computed distance sa sb) h"
  from finalize_classified [OF this] show "\<exists>out. finalize distance h sa sb = Inr out" by blast
qed

lemma finalize_result:
  "finalize distance h sa sb = Inr out \<Longrightarrow> out = map (classified distance sa sb) h"
proof -
  assume r: "finalize distance h sa sb = Inr out"
  then have "list_all (keep_computed distance sa sb) h"
    using finalize_returns_iff [of distance h sa sb] by blast
  from finalize_classified [OF this] r show ?thesis by simp
qed

lemma finalize_no_KeyError:
  "list_all (keep_resolved sa sb) h \<Longrightarrow> finalize distance h sa sb \<noteq> Inl KeyError"
proof (induction h)
  case Nil
  show ?case by simp
next
  case (Cons st h)
  then show ?case by (cases st) (auto split: option.splits sum.splits)
qed

lemma keeps_computed:
  assumes "list_all (keep_resolved sa sb) h"
    and "\<forall>k s ta tb. Keep k s \<in> set h \<and> map_of sa k = Some ta \<and> map_of sb k = Some tb \<longrightarrow>
      distance ta tb \<noteq> None"
  shows "list_all (keep_computed distance sa sb) h"
  unfolding list_all_iff
proof
  fix st assume st: "st \<in> set h"
  show "keep_computed distance sa sb st"
  proof (cases st)
    case (Keep k s)
    with st assms(1) have "keep_resolved sa sb (Keep k s)"
      by (auto simp: list_all_iff)
    then obtain ta tb where "map_of sa k = Some ta" "map_of sb k = Some tb"
      by auto
    with Keep st assms(2) show ?thesis by auto
  qed simp_all
qed

lemma classified_sides [simp]:
  "source_side (classified distance sa sb st) = source_side st"
  "target_side (classified distance sa sb st) = target_side st"
  "kept_side (classified distance sa sb st) = kept_side st"
  "is_edit (classified distance sa sb st) = is_edit st"
  by (cases st; simp split: option.splits)+

lemma classified_script [simp]:
  "source_of (map (classified distance sa sb) h) = source_of h"
  "target_of (map (classified distance sa sb) h) = target_of h"
  "kept_of (map (classified distance sa sb) h) = kept_of h"
  "edits (map (classified distance sa sb) h) = edits h"
  by (induction h) simp_all

lemma Keep_in_source: "Keep k s \<in> set h \<Longrightarrow> (k, s) \<in> set (source_of h)"
  by (induction h) auto

lemma Keep_in_target: "Keep k s \<in> set h \<Longrightarrow> (k, s) \<in> set (target_of h)"
  by (induction h) auto

lemma param_list_key: "(k, s) \<in> set (param_list sd) \<Longrightarrow> map_of sd k \<noteq> None"
  by (auto simp: param_list_def map_of_eq_None_iff intro: rev_image_eqI)

lemma script_keeps_resolved:
  assumes "source_of h = param_list sa" and "target_of h = param_list sb"
  shows "list_all (keep_resolved sa sb) h"
  unfolding list_all_iff
proof
  fix st assume st: "st \<in> set h"
  show "keep_resolved sa sb st"
  proof (cases st)
    case (Keep k s)
    with st Keep_in_source [of k s h] Keep_in_target [of k s h] assms
    have "(k, s) \<in> set (param_list sa)" "(k, s) \<in> set (param_list sb)" by simp_all
    with Keep show ?thesis by (simp add: param_list_key)
  qed simp_all
qed

section \<open>Properties of \<^verbatim>\<open>checkpoint_diff\<close>\<close>

text \<open>
  The search always returns a script; \<^verbatim>\<open>checkpoint_diff\<close> is the classification of that
  script, which returns when the distance of every Keep is computed and raises what
  the distance raises otherwise.
\<close>

lemma checkpoint_diff_final:
  "\<exists>h d. 0 \<le> d \<and> d \<le> int (length sa) + int (length sb) \<and>
     edit_script (param_list sa) (param_list sb) = Inr h \<and>
     final_ok (param_list sa) (param_list sb) d h \<and>
     list_all (keep_resolved sa sb) h \<and>
     checkpoint_diff distance sa sb = finalize distance h sa sb \<and>
     (\<forall>out. checkpoint_diff distance sa sb = Inr out \<longrightarrow>
        out = map (classified distance sa sb) h) \<and>
     ((\<forall>k s ta tb. Keep k s \<in> set h \<and> map_of sa k = Some ta \<and> map_of sb k = Some tb \<longrightarrow>
         distance ta tb \<noteq> None) \<longrightarrow>
      checkpoint_diff distance sa sb = Inr (map (classified distance sa sb) h))"
proof -
  from edit_script_final [of "param_list sa" "param_list sb"]
  obtain h d where hd: "0 \<le> d" "d \<le> int (length sa) + int (length sb)"
    "edit_script (param_list sa) (param_list sb) = Inr h"
    "final_ok (param_list sa) (param_list sb) d h"
    by (auto simp: param_list_def)
  then have kr: "list_all (keep_resolved sa sb) h"
    by (intro script_keeps_resolved) (simp_all add: final_ok_def)
  from hd(3) have c: "checkpoint_diff distance sa sb = finalize distance h sa sb"
    by (simp add: checkpoint_diff_def)
  have p: "\<forall>out. checkpoint_diff distance sa sb = Inr out \<longrightarrow>
      out = map (classified distance sa sb) h"
    unfolding c using finalize_result by blast
  have t: "(\<forall>k s ta tb. Keep k s \<in> set h \<and> map_of sa k = Some ta \<and> map_of sb k = Some tb \<longrightarrow>
         distance ta tb \<noteq> None) \<longrightarrow>
      checkpoint_diff distance sa sb = Inr (map (classified distance sa sb) h)"
    unfolding c using finalize_classified [OF keeps_computed [OF kr]] by blast
  from hd kr c p t show ?thesis by blast
qed

lemma param_list_eq: "param_list sd = map (\<lambda>(k, t). (k, shape t)) sd"
  by (simp add: param_list_def)

text \<open>
  C10. The edit script transforms A into B: its Keep, Modify and Remove steps, read as
  (key, shape) pairs in order, are the keys of A with the shapes of their tensors, in
  A's order, and its Keep, Modify and Insert steps are those of B. This holds of the
  script the search returns (it always returns one) and of every result of
  \<^verbatim>\<open>checkpoint_diff\<close>, which returns one whenever the distance of each Keep of the
  script is computed.
\<close>

theorem checkpoint_diff_sound:
  "\<exists>h. edit_script (param_list sa) (param_list sb) = Inr h \<and>
     source_of h = map (\<lambda>(k, t). (k, shape t)) sa \<and>
     target_of h = map (\<lambda>(k, t). (k, shape t)) sb \<and>
     (\<forall>out. checkpoint_diff distance sa sb = Inr out \<longrightarrow>
        source_of out = map (\<lambda>(k, t). (k, shape t)) sa \<and>
        target_of out = map (\<lambda>(k, t). (k, shape t)) sb) \<and>
     ((\<forall>k s ta tb. Keep k s \<in> set h \<and> map_of sa k = Some ta \<and> map_of sb k = Some tb \<longrightarrow>
         distance ta tb \<noteq> None) \<longrightarrow>
      (\<exists>out. checkpoint_diff distance sa sb = Inr out))"
proof -
  from checkpoint_diff_final [of sa sb distance] obtain h d where
    e: "edit_script (param_list sa) (param_list sb) = Inr h"
    and f: "final_ok (param_list sa) (param_list sb) d h"
    and p: "\<forall>out. checkpoint_diff distance sa sb = Inr out \<longrightarrow>
        out = map (classified distance sa sb) h"
    and t: "(\<forall>k s ta tb. Keep k s \<in> set h \<and> map_of sa k = Some ta \<and> map_of sb k = Some tb \<longrightarrow>
         distance ta tb \<noteq> None) \<longrightarrow>
      checkpoint_diff distance sa sb = Inr (map (classified distance sa sb) h)"
    by blast
  from f have st: "source_of h = map (\<lambda>(k, t). (k, shape t)) sa"
    "target_of h = map (\<lambda>(k, t). (k, shape t)) sb"
    by (simp_all add: final_ok_def param_list_eq)
  have "\<forall>out. checkpoint_diff distance sa sb = Inr out \<longrightarrow>
        source_of out = map (\<lambda>(k, t). (k, shape t)) sa \<and>
        target_of out = map (\<lambda>(k, t). (k, shape t)) sb"
    using p st by auto
  with e st t show ?thesis by blast
qed

lemma sample_diff:
  "checkpoint_diff sample_distance ckpt_old ckpt_new = Inr expected_diff"
  unfolding expected_diff_def by code_simp

theorem checkpoint_diff_sound_witness:
  "checkpoint_diff sample_distance ckpt_old ckpt_new = Inr expected_diff \<and>
   source_of expected_diff = [(''w1'', [4]), (''w2'', [4]), (''w3'', [2, 2])] \<and>
   target_of expected_diff = [(''w2'', [4]), (''w3'', [4]), (''w4'', [1])]"
proof -
  from checkpoint_diff_sound [of ckpt_old ckpt_new sample_distance] sample_diff
  have "source_of expected_diff = map (\<lambda>(k, t). (k, shape t)) ckpt_old \<and>
        target_of expected_diff = map (\<lambda>(k, t). (k, shape t)) ckpt_new"
    by blast
  with sample_diff show ?thesis by (simp add: ckpt_old_def ckpt_new_def)
qed

lemma dist_loop_prefix:
  "dist_loop A B ds fr = Inr h \<Longrightarrow> dist_loop A B (ds @ ds') fr = Inr h"
proof (induction ds arbitrary: fr)
  case Nil
  then show ?case by simp
next
  case (Cons d ds)
  then show ?case by (auto split: sum.splits outcome.splits)
qed

lemma final_ok_unique_level:
  assumes "final_ok A B d h" and "final_ok A B d' h'"
  shows "d = d'"
proof -
  from assms have r: "reach A B d (int (length A), int (length B))"
    "reach A B d' (int (length A), int (length B))"
    and n: "no_script A B (d - 1)" "no_script A B (d' - 1)"
    by (simp_all add: final_ok_def)
  from r(1) n(2) have "\<not> d \<le> d' - 1" unfolding no_script_def by blast
  moreover from r(2) n(1) have "\<not> d' \<le> d - 1" unfolding no_script_def by blast
  ultimately show ?thesis by simp
qed

lemma search_level:
  "\<exists>d h. 0 \<le> d \<and> d \<le> int (length A) + int (length B) \<and> final_ok A B d h \<and>
     edit_script A B = Inr h \<and>
     dist_loop A B (py_range 0 (d + 1) 1) initial_frontier = Inr h \<and>
     dist_loop A B (py_range 0 d 1) initial_frontier = Inl AssertionError"
proof -
  let ?D = "int (length A) + int (length B)"
  from edit_script_final [of A B] obtain h d where
    hd: "0 \<le> d" "d \<le> ?D" "edit_script A B = Inr h" "final_ok A B d h" by blast
  from hd(4) have r: "reach A B d (int (length A), int (length B))"
    and ns: "no_script A B (d - 1)" by (simp_all add: final_ok_def)
  from hd(1) have "- 1 \<le> d" by simp
  from search_upto [OF this, of A B] r
  obtain h2 d2 where h2: "dist_loop A B [0..d] initial_frontier = Inr h2" "final_ok A B d2 h2"
    unfolding no_script_def by blast
  from hd(1,2) have "[0..?D] = [0..d] @ [d + 1..?D]" by (intro upto_split2) simp_all
  with dist_loop_prefix [OF h2(1), of "[d + 1..?D]"] hd(3) have same: "h2 = h"
    by (simp add: edit_script_upto)
  from hd(1) have "- 1 \<le> d - 1" by simp
  from search_upto [OF this, of A B]
  have none: "dist_loop A B [0..d - 1] initial_frontier = Inl AssertionError"
  proof
    assume "\<exists>h3 d3. 0 \<le> d3 \<and> d3 \<le> d - 1 \<and> dist_loop A B [0..d - 1] initial_frontier = Inr h3 \<and>
      final_ok A B d3 h3"
    then obtain h3 d3 where "d3 \<le> d - 1" "final_ok A B d3 h3" by blast
    with final_ok_unique_level [OF hd(4) this(2)] show ?thesis by simp
  qed simp
  from h2(1) same none hd show ?thesis
    by (intro exI [of _ d] exI [of _ h]) (simp add: py_range_1)
qed

text \<open>
  C9. The search returns at a distance level \<open>d\<close> with \<open>0 \<le> d \<le> |A| + |B|\<close>: the loop
  run over the levels \<open>0..d\<close> returns the script, so the assertion after the loop is
  not reached and what is left of \<^verbatim>\<open>checkpoint_diff\<close> is the classification of that
  script. A loop that runs out of levels raises the assertion error and returns no
  script: that is what the loop over the levels below \<open>d\<close> does.
\<close>

theorem search_bounded:
  "\<exists>d h. 0 \<le> d \<and> d \<le> int (length sa) + int (length sb) \<and>
     dist_loop (param_list sa) (param_list sb) (py_range 0 (d + 1) 1) initial_frontier = Inr h \<and>
     dist_loop (param_list sa) (param_list sb) (py_range 0 d 1) initial_frontier =
       Inl AssertionError \<and>
     edit_script (param_list sa) (param_list sb) = Inr h \<and>
     checkpoint_diff distance sa sb = finalize distance h sa sb \<and>
     ((\<forall>k s ta tb. Keep k s \<in> set h \<and> map_of sa k = Some ta \<and> map_of sb k = Some tb \<longrightarrow>
         distance ta tb \<noteq> None) \<longrightarrow>
      (\<exists>out. checkpoint_diff distance sa sb = Inr out))"
proof -
  from search_level [of "param_list sa" "param_list sb"] obtain d h where
    dh: "0 \<le> d" "d \<le> int (length sa) + int (length sb)"
    "edit_script (param_list sa) (param_list sb) = Inr h"
    "dist_loop (param_list sa) (param_list sb) (py_range 0 (d + 1) 1) initial_frontier = Inr h"
    "dist_loop (param_list sa) (param_list sb) (py_range 0 d 1) initial_frontier =
       Inl AssertionError"
    by (auto simp: param_list_def)
  from checkpoint_diff_final [of sa sb distance] dh(3)
  have "checkpoint_diff distance sa sb = finalize distance h sa sb"
    "(\<forall>k s ta tb. Keep k s \<in> set h \<and> map_of sa k = Some ta \<and> map_of sb k = Some tb \<longrightarrow>
         distance ta tb \<noteq> None) \<longrightarrow>
      (\<exists>out. checkpoint_diff distance sa sb = Inr out)"
    by auto
  with dh show ?thesis by blast
qed

theorem search_bounded_witness:
  "0 \<le> (4 :: int) \<and> 4 \<le> int (length ckpt_old) + int (length ckpt_new) \<and>
   dist_loop (param_list ckpt_old) (param_list ckpt_new) (py_range 0 (4 + 1) 1)
     initial_frontier = Inr [Remove ''w1'' [4], Keep ''w2'' [4], Remove ''w3'' [2, 2],
        Insert ''w3'' [4], Insert ''w4'' [1]] \<and>
   dist_loop (param_list ckpt_old) (param_list ckpt_new) (py_range 0 4 1) initial_frontier =
     Inl AssertionError \<and>
   (\<exists>d h. edit_script (param_list ckpt_old) (param_list ckpt_new) = Inr h \<and>
      dist_loop (param_list ckpt_old) (param_list ckpt_new) (py_range 0 (d + 1) 1)
        initial_frontier = Inr h \<and>
      checkpoint_diff sample_distance ckpt_old ckpt_new = finalize sample_distance h ckpt_old ckpt_new)"
proof -
  have "dist_loop (param_list ckpt_old) (param_list ckpt_new) (py_range 0 (4 + 1) 1)
     initial_frontier = Inr [Remove ''w1'' [4], Keep ''w2'' [4], Remove ''w3'' [2, 2],
        Insert ''w3'' [4], Insert ''w4'' [1]]"
    by code_simp
  moreover have "dist_loop (param_list ckpt_old) (param_list ckpt_new) (py_range 0 4 1)
      initial_frontier = Inl AssertionError"
    by code_simp
  moreover have "4 \<le> int (length ckpt_old) + int (length ckpt_new)"
    by (simp add: ckpt_old_def ckpt_new_def)
  ultimately show ?thesis
    using search_bounded [of ckpt_old ckpt_new sample_distance] by auto
qed

lemma param_list_lookup:
  assumes "distinct (map fst sd)" and "(k, s) \<in> set (param_list sd)"
  shows "\<exists>t. map_of sd k = Some t \<and> shape t = s"
proof -
  from assms(2) obtain t where "(k, t) \<in> set sd" "shape t = s"
    by (auto simp: param_list_def)
  with assms(1) show ?thesis by (auto intro: map_of_is_SomeI)
qed

text \<open>
  C7. Every Keep step of the edit script carries a key that both state dictionaries
  hold, with the shape the step records, so that both lookups of \<^verbatim>\<open>_finalize\<close> are
  defined and the classification raises no \<^verbatim>\<open>KeyError\<close>; it returns whenever the
  distance of each Keep is computed.
\<close>

theorem keep_lookups_defined:
  assumes "distinct (map fst sa)" and "distinct (map fst sb)"
  shows "\<exists>h. edit_script (param_list sa) (param_list sb) = Inr h \<and>
    (\<forall>k s. Keep k s \<in> set h \<longrightarrow>
       (\<exists>ta tb. map_of sa k = Some ta \<and> map_of sb k = Some tb \<and> shape ta = s \<and> shape tb = s)) \<and>
    finalize distance h sa sb \<noteq> Inl KeyError \<and>
    ((\<forall>k s ta tb. Keep k s \<in> set h \<and> map_of sa k = Some ta \<and> map_of sb k = Some tb \<longrightarrow>
         distance ta tb \<noteq> None) \<longrightarrow>
     (\<exists>out. finalize distance h sa sb = Inr out))"
proof -
  from checkpoint_diff_final [of sa sb distance] obtain h d where
    h: "edit_script (param_list sa) (param_list sb) = Inr h"
    and f: "final_ok (param_list sa) (param_list sb) d h"
    and kr: "list_all (keep_resolved sa sb) h"
    by blast
  from f have st: "source_of h = param_list sa" "target_of h = param_list sb"
    by (simp_all add: final_ok_def)
  have "\<exists>ta tb. map_of sa k = Some ta \<and> map_of sb k = Some tb \<and> shape ta = s \<and> shape tb = s"
    if "Keep k s \<in> set h" for k s
    using Keep_in_source [OF that] Keep_in_target [OF that] st
      param_list_lookup [OF assms(1), of k s] param_list_lookup [OF assms(2), of k s]
    by auto
  moreover have "finalize distance h sa sb \<noteq> Inl KeyError"
    by (rule finalize_no_KeyError [OF kr])
  moreover have "(\<forall>k s ta tb. Keep k s \<in> set h \<and> map_of sa k = Some ta \<and>
      map_of sb k = Some tb \<longrightarrow> distance ta tb \<noteq> None) \<longrightarrow>
     (\<exists>out. finalize distance h sa sb = Inr out)"
    using finalize_classified [OF keeps_computed [OF kr], of distance] by blast
  ultimately show ?thesis using h by blast
qed

theorem keep_lookups_defined_witness:
  "distinct (map fst ckpt_old) \<and> distinct (map fst ckpt_new) \<and>
   edit_script (param_list ckpt_old) (param_list ckpt_new) =
     Inr [Remove ''w1'' [4], Keep ''w2'' [4], Remove ''w3'' [2, 2],
          Insert ''w3'' [4], Insert ''w4'' [1]] \<and>
   (\<exists>ta tb. map_of ckpt_old ''w2'' = Some ta \<and> map_of ckpt_new ''w2'' = Some tb \<and>
      shape ta = [4] \<and> shape tb = [4]) \<and>
   finalize sample_distance [Remove ''w1'' [4], Keep ''w2'' [4], Remove ''w3'' [2, 2],
          Insert ''w3'' [4], Insert ''w4'' [1]] ckpt_old ckpt_new \<noteq> Inl KeyError"
proof -
  have d: "distinct (map fst ckpt_old)" "distinct (map fst ckpt_new)"
    by (simp_all add: ckpt_old_def ckpt_new_def)
  have e: "edit_script (param_list ckpt_old) (param_list ckpt_new) =
     Inr [Remove ''w1'' [4], Keep ''w2'' [4], Remove ''w3'' [2, 2],
          Insert ''w3'' [4], Insert ''w4'' [1]]"
    by code_simp
  from keep_lookups_defined [OF d, of sample_distance] e d show ?thesis by auto
qed

lemma kept_subseq_source: "subseq (kept_of h) (source_of h)"
proof (induction h)
  case Nil
  show ?case by simp
next
  case (Cons st h)
  then show ?case by (cases st) auto
qed

lemma kept_subseq_target: "subseq (kept_of h) (target_of h)"
proof (induction h)
  case Nil
  show ?case by simp
next
  case (Cons st h)
  then show ?case by (cases st) auto
qed

lemma script_lengths:
  "length (source_of h) + length (target_of h) = edits h + 2 * length (kept_of h)"
proof (induction h)
  case Nil
  show ?case by simp
next
  case (Cons st h)
  then show ?case by (cases st) auto
qed

lemma final_ok_longest:
  assumes f: "final_ok A B d h" and ws: "subseq ws A" "subseq ws B"
  shows "length ws \<le> length (kept_of h)"
proof -
  from f have st: "source_of h = A" "target_of h = B" and e: "int (edits h) = d"
    and ns: "no_script A B (d - 1)" by (simp_all add: final_ok_def)
  from common_subseq_reach [OF ws] ns
  have "\<not> int (length A) + int (length B) - 2 * int (length ws) \<le> d - 1"
    unfolding no_script_def by blast
  with e have "int (edits h) + 2 * int (length ws) \<le> int (length A) + int (length B)" by simp
  then have "edits h + 2 * length ws \<le> length A + length B" by linarith
  with script_lengths [of h] st show ?thesis by simp
qed

lemma final_ok_lcs:
  assumes "final_ok A B d h"
  shows "length (kept_of h) = lcs_length A B"
proof (rule antisym)
  from assms have "source_of h = A" "target_of h = B" by (simp_all add: final_ok_def)
  with kept_subseq_source [of h] kept_subseq_target [of h]
  show "length (kept_of h) \<le> lcs_length A B" by (intro lcs_length_upper) simp_all
next
  from lcs_length_attained [of A B] obtain zs where
    "subseq zs A" "subseq zs B" "length zs = lcs_length A B" by blast
  with final_ok_longest [OF assms, of zs] show "lcs_length A B \<le> length (kept_of h)" by simp
qed

text \<open>
  C1. The number of Insert and Remove steps of the result (a Modify counts as a Keep)
  is the edit distance \<open>|A| + |B| - 2 L\<close>, where \<open>L\<close> is the length of a longest common
  subsequence of the two parameter lists: \<open>L\<close> is computed by \<open>lcs_length\<close>, some
  common subsequence has that length and none is longer. This holds of the script
  the search returns (it always returns one) and of every result of
  \<^verbatim>\<open>checkpoint_diff\<close>, which returns one whenever the distance of each Keep of the
  script is computed.
\<close>

theorem checkpoint_diff_minimal:
  "\<exists>h zs. edit_script (param_list sa) (param_list sb) = Inr h \<and>
     subseq zs (param_list sa) \<and> subseq zs (param_list sb) \<and>
     length zs = lcs_length (param_list sa) (param_list sb) \<and>
     (\<forall>ws. subseq ws (param_list sa) \<and> subseq ws (param_list sb) \<longrightarrow> length ws \<le> length zs) \<and>
     edits h + 2 * lcs_length (param_list sa) (param_list sb) = length sa + length sb \<and>
     (\<forall>out. checkpoint_diff distance sa sb = Inr out \<longrightarrow>
        edits out + 2 * lcs_length (param_list sa) (param_list sb) = length sa + length sb) \<and>
     ((\<forall>k s ta tb. Keep k s \<in> set h \<and> map_of sa k = Some ta \<and> map_of sb k = Some tb \<longrightarrow>
         distance ta tb \<noteq> None) \<longrightarrow>
      (\<exists>out. checkpoint_diff distance sa sb = Inr out))"
proof -
  let ?A = "param_list sa" and ?B = "param_list sb"
  from checkpoint_diff_final [of sa sb distance] obtain h d where
    e: "edit_script ?A ?B = Inr h"
    and f: "final_ok ?A ?B d h"
    and p: "\<forall>out. checkpoint_diff distance sa sb = Inr out \<longrightarrow>
        out = map (classified distance sa sb) h"
    and t: "(\<forall>k s ta tb. Keep k s \<in> set h \<and> map_of sa k = Some ta \<and> map_of sb k = Some tb \<longrightarrow>
         distance ta tb \<noteq> None) \<longrightarrow>
      checkpoint_diff distance sa sb = Inr (map (classified distance sa sb) h)"
    by blast
  from f have st: "source_of h = ?A" "target_of h = ?B" by (simp_all add: final_ok_def)
  have l: "length (kept_of h) = lcs_length ?A ?B" by (rule final_ok_lcs [OF f])
  have "length ?A + length ?B = edits h + 2 * length (kept_of h)"
    using script_lengths [of h] st by simp
  then have n: "edits h + 2 * lcs_length ?A ?B = length sa + length sb"
    using l by (simp add: param_list_def)
  then have n': "\<forall>out. checkpoint_diff distance sa sb = Inr out \<longrightarrow>
      edits out + 2 * lcs_length ?A ?B = length sa + length sb"
    using p by auto
  have "subseq (kept_of h) ?A" "subseq (kept_of h) ?B"
    using kept_subseq_source [of h] kept_subseq_target [of h] st by simp_all
  moreover have "\<forall>ws. subseq ws ?A \<and> subseq ws ?B \<longrightarrow> length ws \<le> length (kept_of h)"
    using final_ok_longest [OF f] by blast
  moreover from t have "(\<forall>k s ta tb. Keep k s \<in> set h \<and> map_of sa k = Some ta \<and>
      map_of sb k = Some tb \<longrightarrow> distance ta tb \<noteq> None) \<longrightarrow>
      (\<exists>out. checkpoint_diff distance sa sb = Inr out)" by blast
  ultimately show ?thesis using e l n n' by blast
qed

theorem checkpoint_diff_minimal_witness:
  "checkpoint_diff sample_distance ckpt_old ckpt_new = Inr expected_diff \<and>
   lcs_length (param_list ckpt_old) (param_list ckpt_new) = 1 \<and>
   edits expected_diff + 2 * 1 = length ckpt_old + length ckpt_new"
proof -
  have l: "lcs_length (param_list ckpt_old) (param_list ckpt_new) = 1"
    by code_simp
  from checkpoint_diff_minimal [of ckpt_old ckpt_new sample_distance] sample_diff
  have "edits expected_diff + 2 * lcs_length (param_list ckpt_old) (param_list ckpt_new) =
      length ckpt_old + length ckpt_new"
    by blast
  with l sample_diff show ?thesis by simp
qed

lemma plain_script:
  "list_all engine_step h \<Longrightarrow> edits h = 0 \<Longrightarrow> h = map (\<lambda>(k, s). Keep k s) (source_of h)"
proof (induction h)
  case Nil
  show ?case by simp
next
  case (Cons st h)
  then show ?case by (cases st) (auto split: if_splits)
qed

text \<open>The search on A against itself: one Keep for each parameter of A, in A's order.\<close>

lemma edit_script_identity:
  "edit_script A A = Inr (map (\<lambda>(k, s). Keep k s) A)"
proof -
  from edit_script_final [of A A] obtain h d where
    d: "0 \<le> d" and e: "edit_script A A = Inr h" and f: "final_ok A A d h"
    by blast
  from f have st: "source_of h = A" and ed: "int (edits h) = d"
    and pl: "list_all engine_step h" and ns: "no_script A A (d - 1)"
    by (simp_all add: final_ok_def)
  from common_subseq_reach [of A A A] have "reach A A 0 (int (length A), int (length A))"
    by simp
  with ns have "\<not> 0 \<le> d - 1" unfolding no_script_def by blast
  with d ed have "edits h = 0" by simp
  from plain_script [OF pl this] st e show ?thesis by simp
qed

text \<open>
  The classification leaves these Keep steps alone exactly when the distance of each
  tensor to itself is computed and is zero.
\<close>

lemma checkpoint_diff_identity_if_zero:
  assumes "distinct (map fst sa)" and "\<forall>(k, t) \<in> set sa. distance t t = Some (Finite 0)"
  shows "checkpoint_diff distance sa sa = Inr (map (\<lambda>(k, t). Keep k (shape t)) sa)"
proof -
  have m: "map_of sa k = Some t" if "(k, t) \<in> set sa" for k t
    using assms(1) that by (rule map_of_is_SomeI)
  have "finalize distance (map (\<lambda>(k, t). Keep k (shape t)) xs) sa sa =
      Inr (map (\<lambda>(k, t). Keep k (shape t)) xs)" if "set xs \<subseteq> set sa" for xs
    using that
  proof (induction xs)
    case Nil
    show ?case by simp
  next
    case (Cons x xs)
    obtain k t where x: "x = (k, t)" by (cases x)
    with Cons.prems have "(k, t) \<in> set sa" by simp
    with m assms(2) have "map_of sa k = Some t" "distance t t = Some (Finite 0)" by auto
    with Cons x show ?case by simp
  qed
  then have "finalize distance (map (\<lambda>(k, t). Keep k (shape t)) sa) sa sa =
      Inr (map (\<lambda>(k, t). Keep k (shape t)) sa)" by simp
  moreover have "map (\<lambda>(k, s). Keep k s) (param_list sa) = map (\<lambda>(k, t). Keep k (shape t)) sa"
    by (simp add: param_list_def case_prod_beta)
  ultimately show ?thesis
    by (simp add: checkpoint_diff_def edit_script_identity)
qed

text \<open>
  C3 is what the code is meant to do, and the search does it, but the result breaks
  it: for a dictionary that holds an empty tensor, or a tensor with a NaN element,
  the distance of the tensor to itself is NaN, \<^verbatim>\<open>dist != 0.0\<close> holds, and
  \<^verbatim>\<open>checkpoint_diff(A, A)\<close> is a Modify and not a Keep.
\<close>

theorem identity_broken_by_nan_distance:
  "distinct (map fst ckpt_empty) \<and>
   edit_script (param_list ckpt_empty) (param_list ckpt_empty) = Inr [Keep ''w'' [0]] \<and>
   torch_rms refused \<lparr>shape = [0], elems = []\<rparr> \<lparr>shape = [0], elems = []\<rparr> = Some NaN \<and>
   checkpoint_diff (torch_rms refused) ckpt_empty ckpt_empty = Inr [Modify ''w'' [0] NaN] \<and>
   distinct (map fst ckpt_nan) \<and>
   torch_rms refused \<lparr>shape = [1], elems = [NaN]\<rparr> \<lparr>shape = [1], elems = [NaN]\<rparr> = Some NaN \<and>
   checkpoint_diff (torch_rms refused) ckpt_nan ckpt_nan = Inr [Modify ''w'' [1] NaN]"
proof -
  have e: "edit_script (param_list ckpt_empty) (param_list ckpt_empty) = Inr [Keep ''w'' [0]]"
    "edit_script (param_list ckpt_nan) (param_list ckpt_nan) = Inr [Keep ''w'' [1]]"
    by (simp_all add: edit_script_identity param_list_def ckpt_empty_def ckpt_nan_def)
  have t: "torch_rms refused \<lparr>shape = [0], elems = []\<rparr> \<lparr>shape = [0], elems = []\<rparr> = Some NaN"
    "torch_rms refused \<lparr>shape = [1], elems = [NaN]\<rparr> \<lparr>shape = [1], elems = [NaN]\<rparr> = Some NaN"
    by (simp_all add: torch_rms_def)
  have "checkpoint_diff (torch_rms refused) ckpt_empty ckpt_empty = Inr [Modify ''w'' [0] NaN]"
    unfolding checkpoint_diff_def e by (simp add: ckpt_empty_def t)
  moreover have "checkpoint_diff (torch_rms refused) ckpt_nan ckpt_nan = Inr [Modify ''w'' [1] NaN]"
    unfolding checkpoint_diff_def e by (simp add: ckpt_nan_def t)
  ultimately show ?thesis using e t by (simp add: ckpt_empty_def ckpt_nan_def)
qed

lemma in_source_cases:
  "(k, s) \<in> set (source_of h) \<Longrightarrow>
   Keep k s \<in> set h \<or> Remove k s \<in> set h \<or> (\<exists>r. Modify k s r \<in> set h)"
proof (induction h)
  case Nil
  then show ?case by simp
next
  case (Cons st h)
  then show ?case by (cases st) auto
qed

lemma in_target_cases:
  "(k, s) \<in> set (target_of h) \<Longrightarrow>
   Keep k s \<in> set h \<or> Insert k s \<in> set h \<or> (\<exists>r. Modify k s r \<in> set h)"
proof (induction h)
  case Nil
  then show ?case by simp
next
  case (Cons st h)
  then show ?case by (cases st) auto
qed

lemma Modify_in_source: "Modify k s r \<in> set h \<Longrightarrow> (k, s) \<in> set (source_of h)"
  by (induction h) auto

lemma Modify_in_target: "Modify k s r \<in> set h \<Longrightarrow> (k, s) \<in> set (target_of h)"
  by (induction h) auto

lemma param_list_mem: "(k, t) \<in> set sd \<Longrightarrow> (k, shape t) \<in> set (param_list sd)"
  by (force simp: param_list_def)

lemma param_list_shape:
  assumes "distinct (map fst sd)" and "(k, t) \<in> set sd" and "(k, s) \<in> set (param_list sd)"
  shows "s = shape t"
proof -
  from param_list_lookup [OF assms(1,3)] obtain t' where "map_of sd k = Some t'" "shape t' = s"
    by blast
  moreover from assms(1,2) have "map_of sd k = Some t" by (rule map_of_is_SomeI)
  ultimately show ?thesis by simp
qed

lemma shape_change_script:
  assumes "distinct (map fst sa)" and "distinct (map fst sb)"
    and "(k, ta) \<in> set sa" and "(k, tb) \<in> set sb" and "shape ta \<noteq> shape tb"
    and st: "source_of out = param_list sa" "target_of out = param_list sb"
  shows "Remove k (shape ta) \<in> set out \<and> Insert k (shape tb) \<in> set out \<and>
    (\<forall>s. Keep k s \<notin> set out) \<and> (\<forall>s r. Modify k s r \<notin> set out)"
proof -
  have both: False if "(k, s) \<in> set (param_list sa)" "(k, s) \<in> set (param_list sb)" for s
    using param_list_shape [OF assms(1,3) that(1)] param_list_shape [OF assms(2,4) that(2)]
      assms(5) by simp
  have nk: "Keep k s \<notin> set out" for s
    using Keep_in_source [of k s out] Keep_in_target [of k s out] st both by auto
  have nm: "Modify k s r \<notin> set out" for s r
    using Modify_in_source [of k s r out] Modify_in_target [of k s r out] st both by auto
  from param_list_mem [OF assms(3)] st have "(k, shape ta) \<in> set (source_of out)" by simp
  from in_source_cases [OF this] nk nm have r: "Remove k (shape ta) \<in> set out" by blast
  from param_list_mem [OF assms(4)] st have "(k, shape tb) \<in> set (target_of out)" by simp
  from in_target_cases [OF this] nk nm have i: "Insert k (shape tb) \<in> set out" by blast
  from r i nk nm show ?thesis by blast
qed

text \<open>
  C4. A key that both dictionaries hold with different shapes appears as a Remove with
  A's shape and as an Insert with B's shape, and in no Keep and no Modify step. This
  holds of the script the search returns (it always returns one) and of every result
  of \<^verbatim>\<open>checkpoint_diff\<close>, which returns one whenever the distance of each Keep of the
  script is computed.
\<close>

theorem shape_change_is_replace:
  assumes "distinct (map fst sa)" and "distinct (map fst sb)"
    and "(k, ta) \<in> set sa" and "(k, tb) \<in> set sb" and "shape ta \<noteq> shape tb"
  shows "\<exists>h. edit_script (param_list sa) (param_list sb) = Inr h \<and>
    Remove k (shape ta) \<in> set h \<and> Insert k (shape tb) \<in> set h \<and> (\<forall>s. Keep k s \<notin> set h) \<and>
    (\<forall>out. checkpoint_diff distance sa sb = Inr out \<longrightarrow>
       Remove k (shape ta) \<in> set out \<and> Insert k (shape tb) \<in> set out \<and>
       (\<forall>s. Keep k s \<notin> set out) \<and> (\<forall>s r. Modify k s r \<notin> set out)) \<and>
    ((\<forall>k s ta tb. Keep k s \<in> set h \<and> map_of sa k = Some ta \<and> map_of sb k = Some tb \<longrightarrow>
        distance ta tb \<noteq> None) \<longrightarrow>
     (\<exists>out. checkpoint_diff distance sa sb = Inr out))"
proof -
  from checkpoint_diff_final [of sa sb distance] obtain h d where
    e: "edit_script (param_list sa) (param_list sb) = Inr h"
    and f: "final_ok (param_list sa) (param_list sb) d h"
    and p: "\<forall>out. checkpoint_diff distance sa sb = Inr out \<longrightarrow>
        out = map (classified distance sa sb) h"
    and t: "(\<forall>k s ta tb. Keep k s \<in> set h \<and> map_of sa k = Some ta \<and> map_of sb k = Some tb \<longrightarrow>
         distance ta tb \<noteq> None) \<longrightarrow>
      checkpoint_diff distance sa sb = Inr (map (classified distance sa sb) h)"
    by blast
  from f have st: "source_of h = param_list sa" "target_of h = param_list sb"
    by (simp_all add: final_ok_def)
  have ph: "Remove k (shape ta) \<in> set h \<and> Insert k (shape tb) \<in> set h \<and>
    (\<forall>s. Keep k s \<notin> set h) \<and> (\<forall>s r. Modify k s r \<notin> set h)"
    by (rule shape_change_script [OF assms st])
  have "Remove k (shape ta) \<in> set (map (classified distance sa sb) h) \<and>
    Insert k (shape tb) \<in> set (map (classified distance sa sb) h) \<and>
    (\<forall>s. Keep k s \<notin> set (map (classified distance sa sb) h)) \<and>
    (\<forall>s r. Modify k s r \<notin> set (map (classified distance sa sb) h))"
    by (rule shape_change_script [OF assms]) (simp_all add: st)
  with p have po: "\<forall>out. checkpoint_diff distance sa sb = Inr out \<longrightarrow>
       Remove k (shape ta) \<in> set out \<and> Insert k (shape tb) \<in> set out \<and>
       (\<forall>s. Keep k s \<notin> set out) \<and> (\<forall>s r. Modify k s r \<notin> set out)"
    by blast
  from t have "(\<forall>k s ta tb. Keep k s \<in> set h \<and> map_of sa k = Some ta \<and>
      map_of sb k = Some tb \<longrightarrow> distance ta tb \<noteq> None) \<longrightarrow>
      (\<exists>out. checkpoint_diff distance sa sb = Inr out)" by blast
  with e ph po show ?thesis by blast
qed

theorem shape_change_is_replace_witness:
  "distinct (map fst ckpt_old) \<and> distinct (map fst ckpt_new) \<and>
   (''w3'', \<lparr>shape = [2, 2], elems = [5, 6, 7, 8]\<rparr>) \<in> set ckpt_old \<and>
   (''w3'', \<lparr>shape = [4], elems = [5, 6, 7, 8]\<rparr>) \<in> set ckpt_new \<and>
   checkpoint_diff sample_distance ckpt_old ckpt_new = Inr expected_diff \<and>
   Remove ''w3'' [2, 2] \<in> set expected_diff \<and> Insert ''w3'' [4] \<in> set expected_diff \<and>
   (\<forall>s. Keep ''w3'' s \<notin> set expected_diff) \<and>
   (\<forall>s r. Modify ''w3'' s r \<notin> set expected_diff)"
proof -
  have d: "distinct (map fst ckpt_old)" "distinct (map fst ckpt_new)"
    by (simp_all add: ckpt_old_def ckpt_new_def)
  have m: "(''w3'', \<lparr>shape = [2, 2], elems = [5, 6, 7, 8]\<rparr>) \<in> set ckpt_old"
    "(''w3'', \<lparr>shape = [4], elems = [5, 6, 7, 8]\<rparr>) \<in> set ckpt_new"
    by (simp_all add: ckpt_old_def ckpt_new_def)
  have n: "shape \<lparr>shape = [2, 2], elems = [5, 6, 7, 8 :: int]\<rparr> \<noteq>
      shape \<lparr>shape = [4], elems = [5, 6, 7, 8 :: int]\<rparr>" by simp
  from shape_change_is_replace [OF d m n, of sample_distance] sample_diff
  have "Remove ''w3'' [2, 2] \<in> set expected_diff \<and> Insert ''w3'' [4] \<in> set expected_diff \<and>
    (\<forall>s. Keep ''w3'' s \<notin> set expected_diff) \<and> (\<forall>s r. Modify ''w3'' s r \<notin> set expected_diff)"
    by auto
  with d m sample_diff show ?thesis by blast
qed

lemma kept_in_both:
  "p \<in> set (kept_of h) \<Longrightarrow> p \<in> set (source_of h) \<and> p \<in> set (target_of h)"
proof (induction h)
  case Nil
  then show ?case by simp
next
  case (Cons st h)
  then show ?case by (cases st) auto
qed

lemma Keep_kept: "Keep k s \<in> set h \<Longrightarrow> (k, s) \<in> set (kept_of h)"
  by (induction h) auto

lemma no_kept_steps:
  "kept_of h = [] \<Longrightarrow>
   list_all is_edit h \<and> length (filter is_keep h) = 0 \<and> length (filter is_modify h) = 0 \<and>
   length (filter is_remove h) = length (source_of h) \<and>
   length (filter is_insert h) = length (target_of h) \<and>
   mset (map step_key h) = mset (map fst (source_of h)) + mset (map fst (target_of h))"
proof (induction h)
  case Nil
  show ?case by simp
next
  case (Cons st h)
  then show ?case by (cases st) auto
qed

lemma classified_kinds [simp]:
  "is_remove (classified distance sa sb st) = is_remove st"
  "is_insert (classified distance sa sb st) = is_insert st"
  "step_key (classified distance sa sb st) = step_key st"
  by (cases st; simp split: option.splits)+

lemma param_list_keys: "map fst (param_list sd) = map fst sd"
  by (simp add: param_list_def case_prod_beta)

text \<open>
  C5. When A and B share no key the result holds exactly \<open>|A|\<close> Remove steps and \<open>|B|\<close>
  Insert steps, no Keep and no Modify step, and the keys of its steps are the keys of
  A together with the keys of B, each exactly once.
\<close>

theorem disjoint_checkpoints:
  assumes "distinct (map fst sa)" and "distinct (map fst sb)"
    and "set (map fst sa) \<inter> set (map fst sb) = {}"
  shows "\<exists>out. checkpoint_diff distance sa sb = Inr out \<and>
    length (filter is_remove out) = length sa \<and> length (filter is_insert out) = length sb \<and>
    length (filter is_keep out) = 0 \<and> length (filter is_modify out) = 0 \<and>
    mset (map step_key out) = mset (map fst sa) + mset (map fst sb) \<and>
    distinct (map step_key out)"
proof -
  from checkpoint_diff_final [of sa sb distance] obtain out d where
    f: "final_ok (param_list sa) (param_list sb) d out"
    and t: "(\<forall>k s ta tb. Keep k s \<in> set out \<and> map_of sa k = Some ta \<and> map_of sb k = Some tb \<longrightarrow>
         distance ta tb \<noteq> None) \<longrightarrow>
      checkpoint_diff distance sa sb = Inr (map (classified distance sa sb) out)"
    by blast
  from f have st: "source_of out = param_list sa" "target_of out = param_list sb"
    by (simp_all add: final_ok_def)
  have nk: "kept_of out = []"
  proof (rule ccontr)
    assume "kept_of out \<noteq> []"
    then obtain p where "p \<in> set (kept_of out)" by (cases "kept_of out") auto
    from kept_in_both [OF this] st have "p \<in> set (param_list sa)" "p \<in> set (param_list sb)"
      by simp_all
    then have "fst p \<in> set (map fst (param_list sa))" "fst p \<in> set (map fst (param_list sb))"
      by simp_all
    with assms(3) show False by (auto simp: param_list_keys)
  qed
  have "Keep k s \<notin> set out" for k s
    using Keep_in_source [of k s out] kept_subseq_source [of out] nk
      Keep_kept [of k s out] by auto
  with t have c': "checkpoint_diff distance sa sb = Inr (map (classified distance sa sb) out)"
    by blast
  have "map (classified distance sa sb) out = out"
    using \<open>\<And>k s. Keep k s \<notin> set out\<close> by (intro map_idI) (case_tac x; auto)
  with c' have c: "checkpoint_diff distance sa sb = Inr out" by simp
  from no_kept_steps [OF nk] st
  have k: "length (filter is_keep out) = 0" "length (filter is_modify out) = 0"
    "length (filter is_remove out) = length sa" "length (filter is_insert out) = length sb"
    "mset (map step_key out) = mset (map fst sa) + mset (map fst sb)"
    by (simp_all add: param_list_keys) (simp_all add: param_list_def)
  from assms have "distinct (map fst sa @ map fst sb)" by simp
  then have "distinct (map step_key out)"
    using k(5) mset_eq_imp_distinct_iff [of "map step_key out" "map fst sa @ map fst sb"]
    by simp
  with c k show ?thesis by blast
qed

theorem disjoint_checkpoints_witness:
  "distinct (map fst ckpt_old) \<and> distinct (map fst ckpt_other) \<and>
   set (map fst ckpt_old) \<inter> set (map fst ckpt_other) = {} \<and>
   (\<exists>out. checkpoint_diff sample_distance ckpt_old ckpt_other = Inr out \<and>
    length (filter is_remove out) = length ckpt_old \<and>
    length (filter is_insert out) = length ckpt_other \<and>
    length (filter is_keep out) = 0 \<and> length (filter is_modify out) = 0 \<and>
    mset (map step_key out) = mset (map fst ckpt_old) + mset (map fst ckpt_other) \<and>
    distinct (map step_key out))"
proof -
  have d: "distinct (map fst ckpt_old)" "distinct (map fst ckpt_other)"
    by (simp_all add: ckpt_old_def ckpt_other_def)
  have e: "set (map fst ckpt_old) \<inter> set (map fst ckpt_other) = {}"
    by (simp add: ckpt_old_def ckpt_other_def)
  from disjoint_checkpoints [OF d e, of sample_distance] d e show ?thesis by blast
qed

lemmas search_eval = diag_iter_def go_down_def start_point_def first_move_def lookup_def
  py_index_def one_def initial_frontier_def py_range.simps chew.simps

text \<open>
  C2 fails as it is worded: in the run on A = [a], B = [b, c], at level 2 and diagonal 0
  the frontier is at \<open>x = 0\<close> on diagonal \<open>- 1\<close> and at \<open>x = 1\<close> on diagonal \<open>1\<close>, so it
  is not further right on \<open>k - 1\<close> than on \<open>k + 1\<close>; yet the search goes down and appends
  an Insert to the history of diagonal \<open>1\<close>.
\<close>

theorem tie_break_counterexample:
  "diag_loop params_a params_bc 0 (py_range (- 0) (0 + 1) 2) initial_frontier =
     Inr (Continue (initial_frontier(0 \<mapsto> Frontier 0 []))) \<and>
   diag_loop params_a params_bc 1 (py_range (- 1) (1 + 1) 2)
     (initial_frontier(0 \<mapsto> Frontier 0 [])) = Inr (Continue frontier_1) \<and>
   diag_iter params_a params_bc frontier_1 2 (- 2) = Inr (Continue frontier_2) \<and>
   lookup frontier_2 (0 - 1) = Inr (Frontier 0 [Insert ''b'' [4]]) \<and>
   lookup frontier_2 (0 + 1) = Inr (Frontier 1 [Remove ''a'' [4]]) \<and>
   \<not> spec_go_down frontier_2 2 0 \<and>
   go_down frontier_2 2 0 = Inr True \<and>
   diag_iter params_a params_bc frontier_2 2 0 =
     Inr (Continue (frontier_2(0 \<mapsto> Frontier 1 [Remove ''a'' [4], Insert ''b'' [4]])))"
  by (simp add: search_eval spec_go_down_def params_a_def params_bc_def frontier_1_def
      frontier_2_def)

text \<open>
  C2, amended. At level \<open>d\<close> and diagonal \<open>k\<close> the search goes down exactly when
  \<open>k = - d\<close>, or \<open>k \<noteq> d\<close> and the frontier is strictly further right on diagonal \<open>k + 1\<close>
  than on diagonal \<open>k - 1\<close> (\<^verbatim>\<open>frontier[k - 1].x < frontier[k + 1].x\<close>). Going down it
  starts from the entry of diagonal \<open>k + 1\<close> with the same \<open>x\<close>, going right from the
  entry of diagonal \<open>k - 1\<close> with \<open>x + 1\<close>. A down move to a row \<open>1 \<le> y \<le> |B|\<close> appends
  the Insert of \<open>B[y - 1]\<close>; a right move to a column \<open>1 \<le> x \<le> |A|\<close> appends the Remove
  of \<open>A[x - 1]\<close>.
\<close>

theorem tie_break_rule:
  assumes "k \<noteq> - d \<Longrightarrow> fr (k - 1) = Some f1" and "k = - d \<or> k \<noteq> d \<Longrightarrow> fr (k + 1) = Some f2"
  shows "go_down fr d k = Inr (k = - d \<or> (k \<noteq> d \<and> fx f1 < fx f2)) \<and>
    start_point fr k (k = - d \<or> (k \<noteq> d \<and> fx f1 < fx f2)) =
      Inr (if k = - d \<or> (k \<noteq> d \<and> fx f1 < fx f2) then (fx f2, fhistory f2)
           else (fx f1 + 1, fhistory f1)) \<and>
    (\<forall>x y h p q. 1 \<le> y \<and> y \<le> int (length B) \<and> B ! nat (y - 1) = (p, q) \<longrightarrow>
       first_move A B True x y h = Inr (h @ [Insert p q])) \<and>
    (\<forall>x y h p q. 1 \<le> x \<and> x \<le> int (length A) \<and> A ! nat (x - 1) = (p, q) \<longrightarrow>
       first_move A B False x y h = Inr (h @ [Remove p q]))"
proof (intro conjI allI impI)
  show g: "go_down fr d k = Inr (k = - d \<or> (k \<noteq> d \<and> fx f1 < fx f2))"
    using assms by (auto simp: go_down_def lookup_def)
  show "start_point fr k (k = - d \<or> (k \<noteq> d \<and> fx f1 < fx f2)) =
      Inr (if k = - d \<or> (k \<noteq> d \<and> fx f1 < fx f2) then (fx f2, fhistory f2)
           else (fx f1 + 1, fhistory f1))"
    using assms by (auto simp: start_point_def lookup_def)
next
  fix x y h p q
  assume "1 \<le> y \<and> y \<le> int (length B) \<and> B ! nat (y - 1) = (p, q)"
  then show "first_move A B True x y h = Inr (h @ [Insert p q])"
    by (simp add: first_move_def one_def py_index_in_range)
next
  fix x y h p q
  assume "1 \<le> x \<and> x \<le> int (length A) \<and> A ! nat (x - 1) = (p, q)"
  then show "first_move A B False x y h = Inr (h @ [Remove p q])"
    by (simp add: first_move_def one_def py_index_in_range)
qed

theorem tie_break_rule_witness:
  "frontier_2 (0 - 1) = Some (Frontier 0 [Insert ''b'' [4]]) \<and>
   frontier_2 (0 + 1) = Some (Frontier 1 [Remove ''a'' [4]]) \<and>
   go_down frontier_2 2 0 = Inr True \<and>
   start_point frontier_2 0 True = Inr (1, [Remove ''a'' [4]]) \<and>
   first_move params_a params_bc True 1 1 [Remove ''a'' [4]] =
     Inr [Remove ''a'' [4], Insert ''b'' [4]] \<and>
   first_move params_a params_bc False 1 0 [] = Inr [Remove ''a'' [4]]"
proof -
  have l: "frontier_2 (0 - 1) = Some (Frontier 0 [Insert ''b'' [4]])"
    and r: "frontier_2 (0 + 1) = Some (Frontier 1 [Remove ''a'' [4]])"
    by (simp_all add: frontier_2_def frontier_1_def)
  have b: "params_bc ! nat (1 - 1) = (''b'', [4])" "int (length params_bc) = 2"
    and a: "params_a ! nat (1 - 1) = (''a'', [4])" "int (length params_a) = 1"
    by (simp_all add: params_a_def params_bc_def)
  from tie_break_rule [of 0 2 frontier_2 "Frontier 0 [Insert ''b'' [4]]"
      "Frontier 1 [Remove ''a'' [4]]" params_bc params_a, OF l r] l r a b
  show ?thesis by simp
qed

text \<open>
  C6. Whenever \<^verbatim>\<open>_finalize\<close> returns, what it returns has the length of its input and
  holds at each position the step of the input or, where the input holds a Keep,
  possibly a Modify with the same key and shape: Insert, Remove (and Modify) steps are
  unchanged and nothing is reordered. It returns exactly when, for every Keep step,
  both lookups succeed and the distance is computed.
\<close>

theorem finalize_frame:
  "(\<forall>out. finalize distance h sa sb = Inr out \<longrightarrow>
      length out = length h \<and>
      (\<forall>i < length h. out ! i = h ! i \<or> (\<exists>k s r. h ! i = Keep k s \<and> out ! i = Modify k s r))) \<and>
   ((\<exists>out. finalize distance h sa sb = Inr out) \<longleftrightarrow>
      list_all (keep_computed distance sa sb) h)"
proof -
  have "classified distance sa sb st = st \<or>
      (\<exists>k s r. st = Keep k s \<and> classified distance sa sb st = Modify k s r)" for st
    by (cases st) (auto split: option.splits)
  then have "\<forall>i < length h. map (classified distance sa sb) h ! i = h ! i \<or>
      (\<exists>k s r. h ! i = Keep k s \<and> map (classified distance sa sb) h ! i = Modify k s r)"
    by simp
  then have "\<forall>out. finalize distance h sa sb = Inr out \<longrightarrow>
      length out = length h \<and>
      (\<forall>i < length h. out ! i = h ! i \<or> (\<exists>k s r. h ! i = Keep k s \<and> out ! i = Modify k s r))"
    using finalize_result [of distance h sa sb] by auto
  with finalize_returns_iff [of distance h sa sb] show ?thesis by blast
qed

theorem finalize_frame_witness:
  "list_all (keep_computed sample_distance ckpt_old ckpt_new)
     [Remove ''w1'' [4], Keep ''w2'' [4], Insert ''w4'' [1]] \<and>
   finalize sample_distance [Remove ''w1'' [4], Keep ''w2'' [4], Insert ''w4'' [1]]
     ckpt_old ckpt_new =
     Inr [Remove ''w1'' [4], Modify ''w2'' [4] (Finite (1 / 2)), Insert ''w4'' [1]] \<and>
   length [Remove ''w1'' [4], Modify ''w2'' [4] (Finite (1 / 2)), Insert ''w4'' [1]] =
     length [Remove ''w1'' [4], Keep ''w2'' [4], Insert ''w4'' [1]]"
proof -
  have r: "list_all (keep_computed sample_distance ckpt_old ckpt_new)
     [Remove ''w1'' [4], Keep ''w2'' [4], Insert ''w4'' [1]]"
    by (simp add: ckpt_old_def ckpt_new_def sample_distance_def)
  have e: "finalize sample_distance [Remove ''w1'' [4], Keep ''w2'' [4], Insert ''w4'' [1]]
     ckpt_old ckpt_new =
     Inr [Remove ''w1'' [4], Modify ''w2'' [4] (Finite (1 / 2)), Insert ''w4'' [1]]"
    by (simp add: ckpt_old_def ckpt_new_def sample_distance_def)
  from finalize_frame [of sample_distance
      "[Remove ''w1'' [4], Keep ''w2'' [4], Insert ''w4'' [1]]" ckpt_old ckpt_new] e
  have "length [Remove ''w1'' [4], Modify ''w2'' [4] (Finite (1 / 2)), Insert ''w4'' [1]] =
     length [Remove ''w1'' [4], Keep ''w2'' [4], Insert ''w4'' [1]]"
    by blast
  with r e show ?thesis by blast
qed

lemma fsquare_fsub_commute: "fsquare (fsub x y) = fsquare (fsub y x)"
  by (cases x; cases y) (simp_all add: algebra_simps)

lemma fsquare_not_negative: "not_negative (fsquare x)"
  by (cases x) simp_all

lemma fadd_not_negative: "not_negative x \<Longrightarrow> not_negative y \<Longrightarrow> not_negative (fadd x y)"
  by (cases x; cases y) simp_all

lemma foldl_fadd_not_negative:
  "not_negative acc \<Longrightarrow> list_all not_negative xs \<Longrightarrow> not_negative (foldl fadd acc xs)"
  by (induction xs arbitrary: acc) (simp_all add: fadd_not_negative)

lemma fmean_not_negative: "list_all not_negative xs \<Longrightarrow> not_negative (fmean xs)"
proof (cases xs)
  case Nil
  then show ?thesis by simp
next
  case (Cons x xs')
  assume "list_all not_negative xs"
  then have "not_negative (foldl fadd (Finite 0) xs)"
    by (intro foldl_fadd_not_negative) simp_all
  with Cons show ?thesis by (cases "foldl fadd (Finite 0) (x # xs')") simp_all
qed

lemma fsqrt_not_negative: "not_negative x \<Longrightarrow> not_negative (fsqrt x)"
  by (cases x) simp_all

lemma squares_commute:
  "map2 (\<lambda>x y. fsquare (fsub x y)) xs ys = map2 (\<lambda>x y. fsquare (fsub x y)) ys xs"
proof (induction xs arbitrary: ys)
  case Nil
  show ?case by simp
next
  case (Cons x xs)
  then show ?case by (cases ys) (simp_all add: fsquare_fsub_commute)
qed

lemma torch_rms_commute:
  "shape a = shape b \<Longrightarrow> torch_rms broadcast a b = torch_rms broadcast b a"
  unfolding torch_rms_def using squares_commute [of "elems a" "elems b"] by auto

lemma torch_rms_not_negative:
  "shape a = shape b \<Longrightarrow> torch_rms broadcast a b = Some r \<Longrightarrow> not_negative r"
proof -
  assume r: "shape a = shape b" "torch_rms broadcast a b = Some r"
  have "list_all not_negative (map2 (\<lambda>x y. fsquare (fsub x y)) (elems a) (elems b))"
    by (simp add: list_all_iff fsquare_not_negative split_beta)
  from fsqrt_not_negative [OF fmean_not_negative [OF this]] r show ?thesis
    by (auto simp: torch_rms_def split: if_splits)
qed

lemma squares_same:
  "list_all is_finite xs \<Longrightarrow>
   map2 (\<lambda>x y. fsquare (fsub x y)) xs xs = replicate (length xs) (Finite 0)"
proof (induction xs)
  case Nil
  show ?case by simp
next
  case (Cons x xs)
  then show ?case by (cases x) simp_all
qed

lemma foldl_fadd_zeros: "foldl fadd (Finite 0) (replicate n (Finite 0)) = Finite 0"
  by (induction n) simp_all

lemma fmean_zeros: "0 < n \<Longrightarrow> fmean (replicate n (Finite 0)) = Finite 0"
proof -
  assume "0 < n"
  then obtain m where n: "n = Suc m" by (cases n) auto
  have "fmean (Finite 0 # replicate m (Finite 0)) = Finite 0"
    using foldl_fadd_zeros [of "Suc m"] by simp
  with n show ?thesis by simp
qed

lemma torch_rms_same:
  assumes "elems a \<noteq> []" and "list_all is_finite (elems a)"
  shows "torch_rms broadcast a a = Some (Finite 0)"
  using assms fmean_zeros [of "length (elems a)"]
  by (simp add: torch_rms_def squares_same)

text \<open>
  The rewriting of a Keep, for any distance function: when \<^verbatim>\<open>_finalize\<close> returns, the
  distance of each Keep was computed, and the Keep has become a Modify with the same
  key, the same shape and that distance when the distance is not \<open>0.0\<close>, and has stayed
  a Keep when it is.
\<close>

lemma finalize_keep_rewrite:
  assumes "finalize distance h sa sb = Inr out" and "i < length h" and "h ! i = Keep k s"
    and "map_of sa k = Some ta" and "map_of sb k = Some tb"
  shows "\<exists>r. distance ta tb = Some r \<and>
    out ! i = (if r \<noteq> Finite 0 then Modify k s r else Keep k s)"
proof -
  from assms(1) have c: "list_all (keep_computed distance sa sb) h"
    using finalize_returns_iff [of distance h sa sb] by blast
  from assms(2,3) have "Keep k s \<in> set h" by (metis nth_mem)
  with c have "keep_computed distance sa sb (Keep k s)"
    unfolding list_all_iff by blast
  with assms(4,5) obtain r where r: "distance ta tb = Some r" by auto
  from finalize_result [OF assms(1)] assms(2,3) have "out ! i = classified distance sa sb (Keep k s)"
    by simp
  with r assms(4,5) show ?thesis by simp
qed

text \<open>
  C8 fails as it is worded: the distance is not zero for every pair of identical
  tensors. For an empty tensor, and for a tensor with a NaN element, the distance of
  the tensor to itself is NaN, and the Keep of identical tensors becomes a Modify.
\<close>

theorem rms_zero_counterexample:
  "torch_rms refused \<lparr>shape = [0], elems = []\<rparr> \<lparr>shape = [0], elems = []\<rparr> = Some NaN \<and>
   finalize (torch_rms refused) [Keep ''w'' [0]] ckpt_empty ckpt_empty = Inr [Modify ''w'' [0] NaN] \<and>
   torch_rms refused \<lparr>shape = [1], elems = [NaN]\<rparr> \<lparr>shape = [1], elems = [NaN]\<rparr> = Some NaN \<and>
   finalize (torch_rms refused) [Keep ''w'' [1]] ckpt_nan ckpt_nan = Inr [Modify ''w'' [1] NaN]"
  by (simp add: torch_rms_def ckpt_empty_def ckpt_nan_def)

text \<open>
  C8, amended. For every Keep step the classifier computes the distance of the two
  tensors, the root-mean-square difference of their corresponding elements: for
  tensors of equal shape a symmetric distance that is never negative, and that is
  zero when the two tensors are element-wise identical, hold at least one element
  and hold only finite elements. When it returns, it has replaced the Keep by a Modify with the same key,
  the same shape and that distance if and only if the distance is not \<open>0.0\<close>.
\<close>

theorem rms_classification:
  "(shape a = shape b \<longrightarrow> torch_rms broadcast a b = torch_rms broadcast b a) \<and>
   (\<forall>r. shape a = shape b \<and> torch_rms broadcast a b = Some r \<longrightarrow> not_negative r) \<and>
   (elems a \<noteq> [] \<and> list_all is_finite (elems a) \<longrightarrow>
      torch_rms broadcast a a = Some (Finite 0)) \<and>
   (\<forall>out i k s ta tb.
      finalize distance h sa sb = Inr out \<and> i < length h \<and> h ! i = Keep k s \<and>
      map_of sa k = Some ta \<and> map_of sb k = Some tb \<longrightarrow>
      (\<exists>r. distance ta tb = Some r \<and>
         out ! i = (if r \<noteq> Finite 0 then Modify k s r else Keep k s)))"
  using torch_rms_commute [of a b broadcast] torch_rms_not_negative [of a b broadcast]
    torch_rms_same [of a broadcast] finalize_keep_rewrite [of distance h sa sb]
  by blast

theorem rms_classification_witness:
  "torch_rms refused \<lparr>shape = [2], elems = [Finite 1, Finite 2]\<rparr>
     \<lparr>shape = [2], elems = [Finite (3 / 2), Finite (3 / 2)]\<rparr> = Some (Finite (1 / 2)) \<and>
   torch_rms refused \<lparr>shape = [2], elems = [Finite (3 / 2), Finite (3 / 2)]\<rparr>
     \<lparr>shape = [2], elems = [Finite 1, Finite 2]\<rparr> = Some (Finite (1 / 2)) \<and>
   torch_rms refused \<lparr>shape = [2], elems = [Finite 1, Finite 2]\<rparr>
     \<lparr>shape = [2], elems = [Finite 1, Finite 2]\<rparr> = Some (Finite 0) \<and>
   finalize (torch_rms refused) [Keep ''w2'' [2]] ckpt_half ckpt_half_moved =
     Inr [Modify ''w2'' [2] (Finite (1 / 2))] \<and>
   finalize (torch_rms refused) [Keep ''w2'' [2]] ckpt_half ckpt_half = Inr [Keep ''w2'' [2]]"
proof -
  let ?a = "\<lparr>shape = [2], elems = [Finite 1, Finite 2]\<rparr>"
  let ?b = "\<lparr>shape = [2], elems = [Finite (3 / 2), Finite (3 / 2)]\<rparr>"
  have s: "sqrt (1 / 4) = 1 / 2"
    by (simp add: real_sqrt_divide)
  have ab: "torch_rms refused ?a ?b = Some (Finite (1 / 2))"
    by (simp add: torch_rms_def s)
  note R = rms_classification [of ?a ?b refused "torch_rms refused" "[Keep ''w2'' [2]]"
      ckpt_half ckpt_half_moved]
  from R ab have ba: "torch_rms refused ?b ?a = Some (Finite (1 / 2))" by simp
  from R have aa: "torch_rms refused ?a ?a = Some (Finite 0)" by simp
  from ab have m: "finalize (torch_rms refused) [Keep ''w2'' [2]] ckpt_half ckpt_half_moved =
     Inr [Modify ''w2'' [2] (Finite (1 / 2))]"
    by (simp add: ckpt_half_def ckpt_half_moved_def)
  from aa have k: "finalize (torch_rms refused) [Keep ''w2'' [2]] ckpt_half ckpt_half = Inr [Keep ''w2'' [2]]"
    by (simp add: ckpt_half_def)
  from ab ba aa m k show ?thesis by blast
qed

end
